theory Spec2Isabelle
  imports Complex_Main
begin

section \<open>The page slicer of \<open>pdf-generator.js\<close>\<close>

text \<open>
  The class \<open>LatexPDFGenerator\<close> renders all items into one tall canvas and cuts the
  canvas into page slices between cards. This theory embeds \<open>_computePageSlices\<close>,
  \<open>_buildPdfFromSlices\<close> and \<open>generatePDF\<close>.

  Pixel coordinates are the results of \<open>Math.round\<close> and \<open>Math.floor\<close>: integers,
  far below \<open>2 ^ 53\<close>, on which the arithmetic of JavaScript is exact. They are
  modelled as \<^typ>\<open>int\<close>. Point measures and layout measures are JavaScript numbers,
  that is IEEE 754 doubles. A finite double is modelled as the \<^typ>\<open>real\<close> number
  it denotes, and every addition, subtraction, multiplication and division on them is
  followed by \<open>dbl\<close>, the rounding to the nearest double (ties to even) that the
  machine applies. The inputs (page size, margin, raster scale, measured rectangles) are
  taken to be doubles. The model follows the finite numbers only: where the source
  divides by zero or the capacity quotient overflows, JavaScript goes on with
  \<open>Infinity\<close> or \<open>NaN\<close>; such a run is outside the model, which gives \<open>None\<close> for
  it, and outside the statements below.
\<close>

subsection \<open>Data\<close>

text \<open>An entry of \<open>cardRectsPx\<close>: \<open>{ topPx, heightPx }\<close> in canvas pixels.\<close>

record cardRect =
  topPx :: int
  heightPx :: int

text \<open>The object pushed onto \<open>slices\<close>.\<close>

record slice =
  yStartPx :: int
  yEndPx :: int
  usableWidthPt :: real
  pxToPt :: real
  margin :: real
  usableHeightPt :: real

text \<open>
  The constants of \<open>_computePageSlices\<close> that the packing loop closes over.
\<close>

record pageGeom =
  geomUsableWidthPt :: real
  geomUsableHeightPt :: real
  geomPxToPt :: real
  geomMargin :: real
  pageSliceHeightPx :: int

text \<open>
  \<open>TypeError\<close>: reading \<open>topPx\<close> of \<open>undefined\<close> (an index past the end of
  \<open>cardRectsPx\<close>). \<open>Error\<close>: \<open>throw new Error(msg)\<close>. \<open>Rejected\<close>: a promise of
  an external library (MathJax, html2canvas) that rejects.
\<close>

datatype error = Error string | TypeError | Rejected string

definition mkSlice :: "pageGeom \<Rightarrow> int \<Rightarrow> int \<Rightarrow> slice" where
  "mkSlice g yStart yEnd =
     \<lparr> yStartPx = yStart, yEndPx = yEnd,
       usableWidthPt = geomUsableWidthPt g, pxToPt = geomPxToPt g,
       margin = geomMargin g, usableHeightPt = geomUsableHeightPt g \<rparr>"

subsection \<open>The packing loops\<close>

text \<open>
  The inner \<open>while\<close> of \<open>_computePageSlices\<close>. Its state is
  \<open>(pageStartPx, usedPx, lastCardBottomPx, currentIndex)\<close>; the result is the state at
  the \<open>break\<close> or when the cards run out.
\<close>

function innerLoop ::
  "cardRect list \<Rightarrow> int \<Rightarrow> int \<times> int \<times> int \<times> nat \<Rightarrow> int \<times> int \<times> int \<times> nat" where
  "innerLoop cardRectsPx pageMaxPx (pageStartPx, usedPx, lastCardBottomPx, currentIndex) =
     (if currentIndex < length cardRectsPx then
        (let c = cardRectsPx ! currentIndex;
             cardTopPx = topPx c;
             cardBottomPx = topPx c + heightPx c;
             pageStartPx' = (if usedPx = 0 then cardTopPx else pageStartPx);
             nextUsedPx = cardBottomPx - pageStartPx'
         in if nextUsedPx \<le> pageMaxPx
            then innerLoop cardRectsPx pageMaxPx
                   (pageStartPx', nextUsedPx, cardBottomPx, currentIndex + 1)
            else (pageStartPx', usedPx, lastCardBottomPx, currentIndex))
      else (pageStartPx, usedPx, lastCardBottomPx, currentIndex))"
  by pat_completeness auto
termination
  by (relation "measure (\<lambda>(cs, m, ps, u, l, i). length cs - i)") auto

text \<open>
  One iteration of the outer \<open>while\<close>, entered with \<open>currentIndex < length\<close>: it runs
  the inner loop from \<open>usedPx = 0\<close>, pushes one slice and returns it with the new
  \<open>pageStartPx\<close> and \<open>currentIndex\<close>. In the forced-slice branch the source reads
  \<open>cardRectsPx[currentIndex]\<close> without a bound check.
\<close>

definition pageBody ::
  "cardRect list \<Rightarrow> pageGeom \<Rightarrow> int \<times> nat \<Rightarrow> error + (slice \<times> int \<times> nat)" where
  "pageBody cardRectsPx g st =
     (case st of (pageStartPx0, currentIndex0) \<Rightarrow>
      (case innerLoop cardRectsPx (pageSliceHeightPx g)
              (pageStartPx0, 0, pageStartPx0, currentIndex0) of
        (pageStartPx, usedPx, lastCardBottomPx, currentIndex) \<Rightarrow>
          if usedPx > 0 then
            Inr (mkSlice g pageStartPx lastCardBottomPx, lastCardBottomPx, currentIndex)
          else if currentIndex < length cardRectsPx then
            (let c = cardRectsPx ! currentIndex;
                 s = mkSlice g (topPx c) (topPx c + min (heightPx c) (pageSliceHeightPx g))
             in Inr (s, yEndPx s, currentIndex + 1))
          else Inl TypeError))"

text \<open>
  Facts about the inner loop that the termination of the outer loop rests on: the index
  never decreases, stays within the list, and when it has not moved neither have
  \<open>usedPx\<close> and \<open>lastCardBottomPx\<close>.
\<close>

abbreviation bottomPx :: "cardRect \<Rightarrow> int" where
  "bottomPx c \<equiv> topPx c + heightPx c"

declare innerLoop.simps [simp del]

lemma innerLoop_fits:
  assumes "i < length cs"
    and "bottomPx (cs ! i) - (if u = 0 then topPx (cs ! i) else ps) \<le> m"
  shows "innerLoop cs m (ps, u, l, i) =
         innerLoop cs m ((if u = 0 then topPx (cs ! i) else ps),
           bottomPx (cs ! i) - (if u = 0 then topPx (cs ! i) else ps), bottomPx (cs ! i), Suc i)"
  using assms by (subst innerLoop.simps) (simp add: Let_def)

lemma innerLoop_break:
  assumes "i < length cs"
    and "\<not> bottomPx (cs ! i) - (if u = 0 then topPx (cs ! i) else ps) \<le> m"
  shows "innerLoop cs m (ps, u, l, i) = ((if u = 0 then topPx (cs ! i) else ps), u, l, i)"
  using assms by (subst innerLoop.simps) (simp add: Let_def)

lemma innerLoop_done:
  assumes "\<not> i < length cs"
  shows "innerLoop cs m (ps, u, l, i) = (ps, u, l, i)"
  using assms by (subst innerLoop.simps) simp

lemma innerLoop_index:
  "innerLoop cs m (ps, u, l, i) = (ps', u', l', j) \<Longrightarrow>
     i \<le> j \<and> (j \<le> length cs \<or> j = i) \<and> (j = i \<longrightarrow> u' = u \<and> l' = l)"
proof (induction cs m "(ps, u, l, i)" arbitrary: ps u l i rule: innerLoop.induct)
  case (1 cs m ps u l i)
  let ?ps = "if u = 0 then topPx (cs ! i) else ps"
  consider (fits) "i < length cs" "bottomPx (cs ! i) - ?ps \<le> m"
    | (brk) "i < length cs" "\<not> bottomPx (cs ! i) - ?ps \<le> m"
    | (fin) "\<not> i < length cs"
    by blast
  then show ?case
  proof cases
    case fits
    with "1.prems" have eq: "innerLoop cs m (?ps, bottomPx (cs ! i) - ?ps, bottomPx (cs ! i), i + 1)
        = (ps', u', l', j)"
      by (simp add: innerLoop_fits)
    have "i + 1 \<le> j \<and> (j \<le> length cs \<or> j = i + 1)"
      using "1.hyps"[OF fits(1) refl refl refl refl refl fits(2) eq] by simp
    with fits show ?thesis by auto
  next
    case brk
    with "1.prems" show ?thesis by (simp add: innerLoop_break)
  next
    case fin
    with "1.prems" show ?thesis by (simp add: innerLoop_done)
  qed
qed

lemma pageBody_advance:
  assumes "pageBody cs g (ps, i) = Inr (s, ps', j)" and "i < length cs"
  shows "i < j \<and> j \<le> length cs"
proof -
  obtain p u l k where il: "innerLoop cs (pageSliceHeightPx g) (ps, 0, ps, i) = (p, u, l, k)"
    by (metis prod_cases4)
  from innerLoop_index[OF il] have k: "i \<le> k" "k \<le> length cs \<or> k = i" "k = i \<longrightarrow> u = 0"
    by auto
  show ?thesis
  proof (cases "0 < u")
    case True
    with assms il have "j = k" by (simp add: pageBody_def)
    with k True assms(2) show ?thesis by auto
  next
    case False
    with assms il have "k < length cs \<and> j = k + 1"
      by (auto simp add: pageBody_def Let_def split: if_splits)
    with k show ?thesis by auto
  qed
qed

text \<open>
  The outer \<open>while\<close>, with state \<open>(slices, pageStartPx, currentIndex)\<close>; \<open>usedPx\<close> is
  reset at the top of every iteration, so it is not part of the state.
\<close>

function outerLoop ::
  "cardRect list \<Rightarrow> pageGeom \<Rightarrow> slice list \<times> int \<times> nat \<Rightarrow> error + slice list" where
  "outerLoop cardRectsPx g (slices, pageStartPx, currentIndex) =
     (if currentIndex < length cardRectsPx then
        (case pageBody cardRectsPx g (pageStartPx, currentIndex) of
           Inl e \<Rightarrow> Inl e
         | Inr (s, pageStartPx', currentIndex') \<Rightarrow>
             outerLoop cardRectsPx g (slices @ [s], pageStartPx', currentIndex'))
      else Inr slices)"
  by pat_completeness auto
termination
proof (relation "measure (\<lambda>(cs, g, sl, ps, i). length cs - i)")
  show "wf (measure (\<lambda>(cs, g, sl, ps, i). length cs - i))" by simp
next
  fix cardRectsPx :: "cardRect list"
    and g slices pageStartPx currentIndex b s y pageStartPx' currentIndex'
  assume "currentIndex < length cardRectsPx"
    and "pageBody cardRectsPx g (pageStartPx, currentIndex) = Inr b"
    and "(s, y) = b" and "(pageStartPx', currentIndex') = y"
  then have "currentIndex < currentIndex' \<and> currentIndex' \<le> length cardRectsPx"
    using pageBody_advance[of cardRectsPx g pageStartPx currentIndex s pageStartPx' currentIndex']
    by auto
  then show "((cardRectsPx, g, slices @ [s], pageStartPx', currentIndex'),
              (cardRectsPx, g, slices, pageStartPx, currentIndex))
             \<in> measure (\<lambda>(cs, g, sl, ps, i). length cs - i)"
    by auto
qed

text \<open>
  The packing part of \<open>_computePageSlices\<close> (from \<open>const slices = []\<close> to
  \<open>return slices\<close>): \<open>pageStartPx = 0\<close>, \<open>currentIndex = 0\<close>.
\<close>

definition packSlices :: "cardRect list \<Rightarrow> pageGeom \<Rightarrow> error + slice list" where
  "packSlices cardRectsPx g = outerLoop cardRectsPx g ([], 0, 0)"

subsection \<open>Rounding to a double\<close>

text \<open>
  IEEE 754 binary64, round to nearest, ties to even. \<open>normalize m s\<close> scales a positive
  \<open>m\<close> by powers of two into the range from \<open>2 ^ 52\<close> up to, not including, \<open>2 ^ 53\<close>, and keeps \<open>m * s\<close> unchanged, so that
  \<open>s\<close> becomes the unit in the last place; it stops at the unit of the subnormal
  numbers, \<open>1 / 2 ^ 1074\<close>. \<open>dbl x\<close> rounds the scaled magnitude to an integer and scales
  back. Overflow (a result of magnitude \<open>2 ^ 1024\<close> or more, which the machine turns into
  \<open>Infinity\<close>) is not part of \<open>dbl\<close>; \<open>pageGeometry\<close> tests for it where a
  quotient can grow.
\<close>

definition minSubnormal :: real where
  "minSubnormal = 1 / 2 ^ 1074"

function normalize :: "real \<Rightarrow> real \<Rightarrow> real \<times> real" where
  "normalize m s =
     (if m \<le> 0 then (m, s)
      else if 2 ^ 53 \<le> m then normalize (m / 2) (s * 2)
      else if m < 2 ^ 52 \<and> minSubnormal < s then normalize (m * 2) (s / 2)
      else (m, s))"
  by pat_completeness auto
termination
proof (relation "measure (\<lambda>(m, s). nat \<bar>\<lfloor>log 2 m\<rfloor> - 52\<bar>)")
  show "wf (measure (\<lambda>(m, s). nat \<bar>\<lfloor>log 2 m\<rfloor> - 52\<bar>))" by simp
next
  fix m s :: real
  assume pos: "\<not> m \<le> 0" and big: "2 ^ 53 \<le> m"
  have "53 \<le> log 2 m" using pos big by (simp add: le_log_iff)
  then have f: "53 \<le> \<lfloor>log 2 m\<rfloor>" by linarith
  have "log 2 (m / 2) = log 2 m - 1" using pos by (simp add: log_divide)
  then have "\<lfloor>log 2 (m / 2)\<rfloor> = \<lfloor>log 2 m\<rfloor> - 1" by simp
  with f show "((m / 2, s * 2), (m, s)) \<in> measure (\<lambda>(m, s). nat \<bar>\<lfloor>log 2 m\<rfloor> - 52\<bar>)"
    by simp
next
  fix m s :: real
  assume pos: "\<not> m \<le> 0" and small: "m < 2 ^ 52 \<and> minSubnormal < s"
  have "log 2 m < 52" using pos small by (simp add: log_less_iff)
  then have f: "\<lfloor>log 2 m\<rfloor> < 52" by linarith
  have "log 2 (m * 2) = log 2 m + 1" using pos by (simp add: log_mult)
  then have "\<lfloor>log 2 (m * 2)\<rfloor> = \<lfloor>log 2 m\<rfloor> + 1" by simp
  with f show "((m * 2, s / 2), (m, s)) \<in> measure (\<lambda>(m, s). nat \<bar>\<lfloor>log 2 m\<rfloor> - 52\<bar>)"
    by simp
qed

declare normalize.simps [simp del]

text \<open>The nearest integer, a tie going to the even one.\<close>

definition roundEven :: "real \<Rightarrow> int" where
  "roundEven y =
     (let f = \<lfloor>y\<rfloor>; r = y - of_int f
      in if r < 1 / 2 then f else if 1 / 2 < r then f + 1 else if even f then f else f + 1)"

definition dbl :: "real \<Rightarrow> real" where
  "dbl x = (case normalize \<bar>x\<bar> 1 of (m, s) \<Rightarrow> sgn x * (of_int (roundEven m) * s))"

subsection \<open>Geometry and the whole of \<open>_computePageSlices\<close>\<close>

record options =
  pdfUnit :: string
  pdfFormat :: string
  pdfOrientation :: string
  filename :: string
  rasterScale :: real
  pageMarginPt :: real
  contentWidthPx :: real
  blockSpacingPx :: real
  colorMap :: "(string \<times> string) list"

text \<open>
  What the browser reports: \<open>getBoundingClientRect()\<close> of a card (\<open>top\<close>, \<open>height\<close>),
  of the wrapper (\<open>top\<close>) with the wrapper's \<open>scrollTop\<close>, and the size of the canvas
  that html2canvas returns.
\<close>

record domRect =
  rectTop :: real
  rectHeight :: real

record wrapperBox =
  wrapperRectTop :: real
  wrapperScrollTop :: real

record canvas =
  canvasWidth :: nat
  canvasHeight :: nat

text \<open>
  jsPDF is an external library: \<open>new jsPDF({unit, format, orientation})\<close> followed by
  \<open>pdf.internal.pageSize.getWidth()\<close> and \<open>getHeight()\<close> is a parameter that maps the
  three options to the page's width and height.
\<close>

type_synonym jsPDF = "string \<Rightarrow> string \<Rightarrow> string \<Rightarrow> real \<times> real"

text \<open>
  \<open>Math.round\<close>: the integer nearest to its argument, a tie going towards \<open>+\<infinity>\<close>. It is
  exact on a double; nothing is rounded in between.
\<close>

definition mathRound :: "real \<Rightarrow> int" where
  "mathRound x = \<lfloor>x + 1 / 2\<rfloor>"

text \<open>\<open>cardRectsPx = cards.map(...)\<close>.\<close>

definition cardRectsPxOf :: "options \<Rightarrow> wrapperBox \<Rightarrow> domRect list \<Rightarrow> cardRect list" where
  "cardRectsPxOf opts wrapper cards =
     (let wrapperTop = wrapperRectTop wrapper in
      map (\<lambda>r.
        (let topPx' = dbl (dbl (rectTop r - wrapperTop) + wrapperScrollTop wrapper);
             heightPx' = rectHeight r
         in \<lparr> topPx = mathRound (dbl (topPx' * rasterScale opts)),
              heightPx = mathRound (dbl (heightPx' * rasterScale opts)) \<rparr>)) cards)"

text \<open>
  The geometry part of \<open>_computePageSlices\<close>. JavaScript divides by zero without an
  error (the quotient is infinite or \<open>NaN\<close>) and lets a quotient overflow to
  \<open>Infinity\<close>; these runs are outside the model: \<open>None\<close>. A divisor is zero when the
  canvas has no width, when the usable width is zero, or when \<open>pxToPt\<close> has been rounded
  to zero.
\<close>

definition pageGeometry :: "jsPDF \<Rightarrow> options \<Rightarrow> canvas \<Rightarrow> pageGeom option" where
  "pageGeometry pdfLib opts bigCanvas =
     (case pdfLib (pdfUnit opts) (pdfFormat opts) (pdfOrientation opts) of
        (pageWidthPt, pageHeightPt) \<Rightarrow>
          (let margin' = pageMarginPt opts;
               usableWidthPt' = dbl (pageWidthPt - dbl (2 * margin'));
               usableHeightPt' = dbl (pageHeightPt - dbl (2 * margin'))
           in if canvasWidth bigCanvas = 0 \<or> usableWidthPt' = 0 then None
              else
                (let pxToPt' = dbl (usableWidthPt' / real (canvasWidth bigCanvas))
                 in if pxToPt' = 0 \<or> 2 ^ 1024 \<le> \<bar>dbl (usableHeightPt' / pxToPt')\<bar> then None
                    else
                      (let pageSliceHeightPx' = \<lfloor>dbl (usableHeightPt' / pxToPt')\<rfloor>
                       in Some \<lparr> geomUsableWidthPt = usableWidthPt',
                                 geomUsableHeightPt = usableHeightPt',
                                 geomPxToPt = pxToPt', geomMargin = margin',
                                 pageSliceHeightPx = pageSliceHeightPx' \<rparr>))))"

definition computePageSlices ::
  "jsPDF \<Rightarrow> options \<Rightarrow> wrapperBox \<Rightarrow> domRect list \<Rightarrow> canvas \<Rightarrow> (error + slice list) option" where
  "computePageSlices pdfLib opts wrapper cards bigCanvas =
     (case pageGeometry pdfLib opts bigCanvas of
        None \<Rightarrow> None
      | Some g \<Rightarrow> Some (packSlices (cardRectsPxOf opts wrapper cards) g))"

subsection \<open>\<open>_buildPdfFromSlices\<close>\<close>

text \<open>
  The document is the list of its pages; a page is the list of the images placed on it.
  An image records the rectangle of the big canvas it was drawn from (\<open>drawImage\<close> with
  source \<open>(0, yStartPx, bigCanvas.width, sliceHeightPx)\<close>) and the arguments of
  \<open>pdf.addImage(img, "PNG", x, y, w, h, ...)\<close>. \<open>new jsPDF(...)\<close> starts with one
  empty page, \<open>addPage\<close> appends a page, \<open>addImage\<close> draws on the last page.
  Failures of the canvas and of jsPDF are not modelled.
\<close>

record placedImage =
  srcY :: int
  srcWidth :: nat
  srcHeight :: int
  imgX :: real
  imgY :: real
  imgWidth :: real
  imgHeight :: real

type_synonym pdfDoc = "placedImage list list"

definition addPage :: "pdfDoc \<Rightarrow> pdfDoc" where
  "addPage pdf = pdf @ [[]]"

definition addImage :: "pdfDoc \<Rightarrow> placedImage \<Rightarrow> pdfDoc" where
  "addImage pdf img = butlast pdf @ [last pdf @ [img]]"

text \<open>The \<open>for (const slice of slices)\<close> loop, with state \<open>(first, pdf)\<close>.\<close>

fun buildLoop :: "canvas \<Rightarrow> slice list \<Rightarrow> bool \<times> pdfDoc \<Rightarrow> bool \<times> pdfDoc" where
  "buildLoop bigCanvas [] st = st"
| "buildLoop bigCanvas (slice # rest) (first, pdf) =
     (let sliceHeightPx = yEndPx slice - yStartPx slice;
          sliceHeightPt = dbl (real_of_int sliceHeightPx * pxToPt slice);
          pdf' = (if \<not> first then addPage pdf else pdf);
          img = \<lparr> srcY = yStartPx slice, srcWidth = canvasWidth bigCanvas,
                  srcHeight = sliceHeightPx,
                  imgX = margin slice, imgY = margin slice,
                  imgWidth = usableWidthPt slice, imgHeight = sliceHeightPt \<rparr>
      in buildLoop bigCanvas rest (False, addImage pdf' img))"

text \<open>The result is what \<open>pdf.save(this.options.filename)\<close> writes.\<close>

definition buildPdfFromSlices :: "options \<Rightarrow> canvas \<Rightarrow> slice list \<Rightarrow> string \<times> pdfDoc" where
  "buildPdfFromSlices opts bigCanvas slices =
     (filename opts, snd (buildLoop bigCanvas slices (True, [[]])))"

subsection \<open>\<open>generatePDF\<close>\<close>

record item =
  itemType :: string
  itemTitle :: "string option"
  itemContent :: string
  itemPage :: "nat option"

text \<open>
  The part of the browser that \<open>generatePDF\<close> touches: the children of the off-screen
  \<open>renderHost\<close> (DOM nodes, named by numbers), the next unused node name, and the
  files saved.
\<close>

record world =
  renderHost :: "nat list"
  nextNode :: nat
  saved :: "(string \<times> pdfDoc) list"

text \<open>
  The external collaborators of one run: jsPDF's page size, the layout the browser
  computes for the wrapper and for the card of each index, the outcome of
  \<open>_typeset\<close> (\<open>None\<close>: MathJax is absent or its promise resolves) and the outcome of
  \<open>html2canvas\<close>.
\<close>

record env =
  pdfLib :: jsPDF
  layoutWrapper :: "item list \<Rightarrow> wrapperBox"
  layoutCard :: "item list \<Rightarrow> nat \<Rightarrow> domRect"
  typesetResult :: "error option"
  captureResult :: "error + canvas"

text \<open>
  \<open>_buildContinuousDocument\<close>: creates the wrapper, one card per item, and appends the
  wrapper to \<open>renderHost\<close>. Returns the wrapper node, the cards (by index) and the world.
\<close>

definition buildContinuousDocument :: "item list \<Rightarrow> world \<Rightarrow> (nat \<times> nat list) \<times> world" where
  "buildContinuousDocument items w =
     (let wrapper = nextNode w;
          cards = [0..<length items]
      in ((wrapper, cards),
          w\<lparr> renderHost := renderHost w @ [wrapper], nextNode := Suc (nextNode w) \<rparr>))"

definition removeChild :: "nat \<Rightarrow> world \<Rightarrow> world" where
  "removeChild node w = w\<lparr> renderHost := remove1 node (renderHost w) \<rparr>"

text \<open>
  \<open>generatePDF\<close>: the promise rejects (\<open>Inl\<close>) or resolves (\<open>Inr ()\<close>), and the world
  after it. There is no \<open>try\<close> in the source: an exception leaves at once. The
  contents of the cards (\<open>_buildItemCard\<close>) and the pause of 120 ms after typesetting
  have no part in what follows and are left out; \<open>items\<close> is a list, so the test
  \<open>Array.isArray(items)\<close> holds.
\<close>

definition generatePDF ::
  "env \<Rightarrow> options \<Rightarrow> item list \<Rightarrow> world \<Rightarrow> ((error + unit) \<times> world) option" where
  "generatePDF e opts items w =
     (if length items = 0 then Some (Inl (Error ''No items to export.''), w)
      else
        (case buildContinuousDocument items w of ((wrapper, cards), w1) \<Rightarrow>
          (case typesetResult e of
             Some err \<Rightarrow> Some (Inl err, w1)
           | None \<Rightarrow>
              (case captureResult e of
                 Inl err \<Rightarrow> Some (Inl err, w1)
               | Inr bigCanvas \<Rightarrow>
                  (case computePageSlices (pdfLib e) opts (layoutWrapper e items)
                          (map (layoutCard e items) cards) bigCanvas of
                     None \<Rightarrow> None
                   | Some (Inl err) \<Rightarrow> Some (Inl err, w1)
                   | Some (Inr slices) \<Rightarrow>
                      (let w2 = removeChild wrapper w1;
                           file = buildPdfFromSlices opts bigCanvas slices
                       in Some (Inr (), w2\<lparr> saved := saved w2 @ [file] \<rparr>)))))))"

section \<open>Vocabulary of the properties\<close>

text \<open>
  The invariant of the rendered blocks: every height is positive, and the cards follow
  each other downwards without overlap (each card ends at or above the top of the next).
\<close>

fun wfRects :: "cardRect list \<Rightarrow> bool" where
  "wfRects [] = True"
| "wfRects [c] = (0 < heightPx c)"
| "wfRects (c # d # cs) = (0 < heightPx c \<and> bottomPx c \<le> topPx d \<and> wfRects (d # cs))"

text \<open>\<open>sliceHeightPx = yEndPx - yStartPx\<close>, as \<open>_buildPdfFromSlices\<close> computes it.\<close>

definition sliceHeightPx :: "slice \<Rightarrow> int" where
  "sliceHeightPx s = yEndPx s - yStartPx s"

text \<open>
  The greedy policy in the specification's words, as a relation between the index of the
  first card not yet placed and the slices still to come. A page that starts at card \<open>i\<close>
  either takes the cards \<open>i, \<dots>, j - 1\<close>, all of which end within the capacity \<open>m\<close>
  measured from the top of card \<open>i\<close>, while card \<open>j\<close> (if there is one) does not; or card
  \<open>i\<close> alone is taller than \<open>m\<close> and the page is that card clipped to \<open>m\<close>.
\<close>

inductive greedyPages :: "cardRect list \<Rightarrow> int \<Rightarrow> nat \<Rightarrow> slice list \<Rightarrow> bool"
  for cs :: "cardRect list" and m :: int where
  pagesEnd: "length cs \<le> i \<Longrightarrow> greedyPages cs m i []"
| pagesFit: "i < j \<Longrightarrow> j \<le> length cs \<Longrightarrow>
     yStartPx s = topPx (cs ! i) \<Longrightarrow> yEndPx s = bottomPx (cs ! (j - 1)) \<Longrightarrow>
     (\<forall>k. i \<le> k \<and> k < j \<longrightarrow> bottomPx (cs ! k) - topPx (cs ! i) \<le> m) \<Longrightarrow>
     (j < length cs \<longrightarrow> m < bottomPx (cs ! j) - topPx (cs ! i)) \<Longrightarrow>
     greedyPages cs m j sl \<Longrightarrow> greedyPages cs m i (s # sl)"
| pagesClip: "i < length cs \<Longrightarrow> m < heightPx (cs ! i) \<Longrightarrow>
     yStartPx s = topPx (cs ! i) \<Longrightarrow> yEndPx s = topPx (cs ! i) + m \<Longrightarrow>
     greedyPages cs m (Suc i) sl \<Longrightarrow> greedyPages cs m i (s # sl)"

text \<open>Concrete inputs for the instances below.\<close>

definition exampleGeom :: "int \<Rightarrow> pageGeom" where
  "exampleGeom cap =
     \<lparr> geomUsableWidthPt = 539, geomUsableHeightPt = 785, geomPxToPt = 1 / 4,
       geomMargin = 28, pageSliceHeightPx = cap \<rparr>"

definition mixedCards :: "cardRect list" where
  "mixedCards = [\<lparr>topPx = 0, heightPx = 500\<rparr>, \<lparr>topPx = 524, heightPx = 2000\<rparr>,
                 \<lparr>topPx = 2548, heightPx = 100\<rparr>]"

definition scenarioA :: "cardRect list" where
  "scenarioA = [\<lparr>topPx = 0, heightPx = 500\<rparr>, \<lparr>topPx = 524, heightPx = 500\<rparr>,
                \<lparr>topPx = 1048, heightPx = 500\<rparr>]"

definition scenarioB :: "cardRect list" where
  "scenarioB = [\<lparr>topPx = 0, heightPx = 2000\<rparr>]"

definition landscapeA4 :: jsPDF where
  "landscapeA4 unit format orientation = (dbl 841.89, dbl 595.28)"

definition fullMarginOptions :: options where
  "fullMarginOptions =
     \<lparr> pdfUnit = ''pt'', pdfFormat = ''a4'', pdfOrientation = ''l'',
       filename = ''extracted.pdf'', rasterScale = 2, pageMarginPt = dbl 297.64,
       contentWidthPx = 820, blockSpacingPx = 24, colorMap = [] \<rparr>"

definition wrapperAtOrigin :: wrapperBox where
  "wrapperAtOrigin = \<lparr> wrapperRectTop = 0, wrapperScrollTop = 0 \<rparr>"

definition oneCard :: "domRect list" where
  "oneCard = [\<lparr> rectTop = 0, rectHeight = 100 \<rparr>]"

definition smallCanvas :: canvas where
  "smallCanvas = \<lparr> canvasWidth = 1640, canvasHeight = 200 \<rparr>"

definition portraitA4 :: jsPDF where
  "portraitA4 unit format orientation = (dbl 595.28, dbl 841.89)"

definition defaultOptions :: options where
  "defaultOptions =
     \<lparr> pdfUnit = ''pt'', pdfFormat = ''a4'', pdfOrientation = ''p'',
       filename = ''extracted.pdf'', rasterScale = dbl 2.8, pageMarginPt = 28,
       contentWidthPx = 820, blockSpacingPx = 24,
       colorMap = [(''definition'', ''#E8EDFF''), (''lemma'', ''#E8FFF3'')] \<rparr>"

definition otherOptions :: options where
  "otherOptions =
     \<lparr> pdfUnit = ''pt'', pdfFormat = ''a4'', pdfOrientation = ''p'',
       filename = ''notes.pdf'', rasterScale = dbl 2.8, pageMarginPt = 28,
       contentWidthPx = 820, blockSpacingPx = 12, colorMap = [] \<rparr>"

definition twoCards :: "domRect list" where
  "twoCards = [\<lparr> rectTop = 10, rectHeight = 700 \<rparr>, \<lparr> rectTop = 734, rectHeight = 600.5 \<rparr>]"

definition wrapperAtTen :: wrapperBox where
  "wrapperAtTen = \<lparr> wrapperRectTop = 10, wrapperScrollTop = 0 \<rparr>"

definition tallCanvas :: canvas where
  "tallCanvas = \<lparr> canvasWidth = 2296, canvasHeight = 3709 \<rparr>"

definition tallerCanvas :: canvas where
  "tallerCanvas = \<lparr> canvasWidth = 2296, canvasHeight = 3710 \<rparr>"

text \<open>
  The geometry that the default options give on an A4 page and a canvas 2296 pixels
  wide, in doubles: the usable width is the double next to 539.28, and so on.
\<close>

definition defaultGeom :: pageGeom where
  "defaultGeom =
     \<lparr> geomUsableWidthPt = 2371778522508165 / 4398046511104,
       geomUsableHeightPt = 6912761545223045 / 8796093022208,
       geomPxToPt = 528898346482657 / 2251799813685248,
       geomMargin = 28, pageSliceHeightPx = 3345 \<rparr>"

definition firstSlice :: slice where
  "firstSlice = mkSlice defaultGeom 0 1960"

definition secondSlice :: slice where
  "secondSlice = mkSlice defaultGeom 2027 3708"


definition stackedLayout :: "item list \<Rightarrow> nat \<Rightarrow> domRect" where
  "stackedLayout items i = \<lparr> rectTop = 10 + 724 * real i, rectHeight = 700 \<rparr>"

definition fixedWrapper :: "item list \<Rightarrow> wrapperBox" where
  "fixedWrapper items = wrapperAtTen"

definition oneItem :: "item list" where
  "oneItem = [\<lparr> itemType = ''theorem'', itemTitle = None,
                itemContent = ''Every bounded sequence has a convergent subsequence.'',
                itemPage = Some 3 \<rparr>]"

definition emptyWorld :: world where
  "emptyWorld = \<lparr> renderHost = [], nextNode = 0, saved = [] \<rparr>"

definition goodEnv :: env where
  "goodEnv = \<lparr> pdfLib = portraitA4, layoutWrapper = fixedWrapper, layoutCard = stackedLayout,
               typesetResult = None, captureResult = Inr tallCanvas \<rparr>"

definition typesetFailsEnv :: env where
  "typesetFailsEnv = \<lparr> pdfLib = portraitA4, layoutWrapper = fixedWrapper, layoutCard = stackedLayout,
               typesetResult = Some (Rejected ''typeset''), captureResult = Inr tallCanvas \<rparr>"

definition captureFailsEnv :: env where
  "captureFailsEnv = \<lparr> pdfLib = portraitA4, layoutWrapper = fixedWrapper, layoutCard = stackedLayout,
               typesetResult = None, captureResult = Inl (Rejected ''html2canvas'') \<rparr>"

definition savedWorld :: world where
  "savedWorld =
     \<lparr> renderHost = [], nextNode = 1,
       saved = [(''extracted.pdf'',
                 [[\<lparr> srcY = 0, srcWidth = 2296, srcHeight = 1960, imgX = 28, imgY = 28,
                      imgWidth = 2371778522508165 / 4398046511104,
                      imgHeight = 8098755930515685 / 17592186044416 \<rparr>]])] \<rparr>"






section \<open>The loops meet the greedy policy\<close>

lemma wfRects_height: "wfRects cs \<Longrightarrow> i < length cs \<Longrightarrow> 0 < heightPx (cs ! i)"
proof (induction cs arbitrary: i rule: wfRects.induct)
  case (3 c d cs)
  then show ?case by (cases i) auto
qed auto

lemma wfRects_next:
  "wfRects cs \<Longrightarrow> Suc i < length cs \<Longrightarrow> bottomPx (cs ! i) \<le> topPx (cs ! Suc i)"
proof (induction cs arbitrary: i rule: wfRects.induct)
  case (3 c d cs)
  then show ?case by (cases i) auto
qed auto

lemma wfRects_before:
  assumes "wfRects cs" and "i < j" and "j < length cs"
  shows "bottomPx (cs ! i) \<le> topPx (cs ! j)"
  using assms(2,3)
proof (induction j)
  case 0
  then show ?case by simp
next
  case (Suc j)
  show ?case
  proof (cases "i = j")
    case True
    with Suc.prems assms(1) show ?thesis by (simp add: wfRects_next)
  next
    case False
    with Suc have "bottomPx (cs ! i) \<le> topPx (cs ! j)" by simp
    moreover have "0 < heightPx (cs ! j)" using assms(1) Suc.prems by (simp add: wfRects_height)
    moreover have "bottomPx (cs ! j) \<le> topPx (cs ! Suc j)"
      using assms(1) Suc.prems by (simp add: wfRects_next)
    ultimately show ?thesis by linarith
  qed
qed

lemma wfRects_top_mono:
  assumes "wfRects cs" and "i \<le> j" and "j < length cs"
  shows "topPx (cs ! i) \<le> topPx (cs ! j)"
proof (cases "i = j")
  case False
  with assms have "bottomPx (cs ! i) \<le> topPx (cs ! j)" by (simp add: wfRects_before)
  moreover have "0 < heightPx (cs ! i)" using assms by (simp add: wfRects_height)
  ultimately show ?thesis by linarith
qed simp

lemma innerLoop_mid:
  "wfRects cs \<Longrightarrow> 0 < i \<Longrightarrow> i \<le> length cs \<Longrightarrow> l = bottomPx (cs ! (i - 1)) \<Longrightarrow> u = l - ps \<Longrightarrow> 0 < u \<Longrightarrow>
     innerLoop cs m (ps, u, l, i) = (ps', u', l', j) \<Longrightarrow>
     ps' = ps \<and> i \<le> j \<and> j \<le> length cs \<and> l' = bottomPx (cs ! (j - 1)) \<and> u' = l' - ps \<and> 0 < u' \<and>
     (\<forall>k. i \<le> k \<and> k < j \<longrightarrow> bottomPx (cs ! k) - ps \<le> m) \<and>
     (j < length cs \<longrightarrow> m < bottomPx (cs ! j) - ps)"
proof (induction cs m "(ps, u, l, i)" arbitrary: ps u l i rule: innerLoop.induct)
  case (1 cs m ps u l i)
  note wf = "1.prems"(1) and ipos = "1.prems"(2) and l = "1.prems"(4) and u = "1.prems"(5)
    and upos = "1.prems"(6) and run = "1.prems"(7)
  have u0: "u \<noteq> 0" using upos by simp
  consider (fits) "i < length cs" "bottomPx (cs ! i) - ps \<le> m"
    | (brk) "i < length cs" "\<not> bottomPx (cs ! i) - ps \<le> m"
    | (fin) "\<not> i < length cs"
    by blast
  then show ?case
  proof cases
    case fits
    have eq: "innerLoop cs m (ps, bottomPx (cs ! i) - ps, bottomPx (cs ! i), i + 1) = (ps', u', l', j)"
      using run fits u0 by (simp add: innerLoop_fits)
    have "bottomPx (cs ! (i - 1)) \<le> topPx (cs ! i)"
      using wfRects_before[OF wf, of "i - 1" i] ipos fits(1) by auto
    moreover have "0 < heightPx (cs ! i)" using wf fits(1) by (simp add: wfRects_height)
    ultimately have pos: "0 < bottomPx (cs ! i) - ps" using l u upos by linarith
    have c2: "bottomPx (cs ! i) - (if u = 0 then topPx (cs ! i) else ps) \<le> m"
      using fits u0 by simp
    have IH: "ps' = ps \<and> i + 1 \<le> j \<and> j \<le> length cs \<and> l' = bottomPx (cs ! (j - 1)) \<and>
       u' = l' - ps \<and> 0 < u' \<and>
       (\<forall>k. i + 1 \<le> k \<and> k < j \<longrightarrow> bottomPx (cs ! k) - ps \<le> m) \<and>
       (j < length cs \<longrightarrow> m < bottomPx (cs ! j) - ps)"
      using "1.hyps"[OF fits(1) refl refl refl refl refl c2] u0 wf fits(1) pos eq by simp
    have "\<forall>k. i \<le> k \<and> k < j \<longrightarrow> bottomPx (cs ! k) - ps \<le> m"
    proof (intro allI impI)
      fix k assume k: "i \<le> k \<and> k < j"
      show "bottomPx (cs ! k) - ps \<le> m"
      proof (cases "k = i")
        case True
        with fits show ?thesis by simp
      next
        case False
        with k IH show ?thesis by simp
      qed
    qed
    with IH show ?thesis by simp
  next
    case brk
    then have "innerLoop cs m (ps, u, l, i) = (ps, u, l, i)"
      using u0 by (simp add: innerLoop_break)
    with "1.prems" brk show ?thesis by auto
  next
    case fin
    then have "innerLoop cs m (ps, u, l, i) = (ps, u, l, i)"
      by (simp add: innerLoop_done)
    with "1.prems" fin show ?thesis by auto
  qed
qed

lemma pageBody_clip:
  assumes "i < length cs" and "pageSliceHeightPx g < heightPx (cs ! i)"
  shows "pageBody cs g (ps, i) =
     Inr (mkSlice g (topPx (cs ! i)) (topPx (cs ! i) + pageSliceHeightPx g),
          topPx (cs ! i) + pageSliceHeightPx g, Suc i)"
proof -
  have "innerLoop cs (pageSliceHeightPx g) (ps, 0, ps, i) = (topPx (cs ! i), 0, ps, i)"
    using assms by (simp add: innerLoop_break)
  with assms show ?thesis
    by (simp add: pageBody_def Let_def mkSlice_def min_def)
qed

lemma pageBody_fit:
  assumes wf: "wfRects cs" and i: "i < length cs"
    and fit: "heightPx (cs ! i) \<le> pageSliceHeightPx g"
  shows "\<exists>j. i < j \<and> j \<le> length cs \<and>
     pageBody cs g (ps, i) =
       Inr (mkSlice g (topPx (cs ! i)) (bottomPx (cs ! (j - 1))), bottomPx (cs ! (j - 1)), j) \<and>
     (\<forall>k. i \<le> k \<and> k < j \<longrightarrow> bottomPx (cs ! k) - topPx (cs ! i) \<le> pageSliceHeightPx g) \<and>
     (j < length cs \<longrightarrow> pageSliceHeightPx g < bottomPx (cs ! j) - topPx (cs ! i))"
proof -
  let ?m = "pageSliceHeightPx g"
  let ?t = "topPx (cs ! i)"
  obtain p u l j where run: "innerLoop cs ?m (?t, heightPx (cs ! i), bottomPx (cs ! i), Suc i) = (p, u, l, j)"
    by (metis prod_cases4)
  have first: "innerLoop cs ?m (ps, 0, ps, i) = (p, u, l, j)"
    using i fit run by (simp add: innerLoop_fits)
  have hpos: "0 < heightPx (cs ! i)" using wf i by (rule wfRects_height)
  have mid: "p = ?t \<and> Suc i \<le> j \<and> j \<le> length cs \<and> l = bottomPx (cs ! (j - 1)) \<and>
      u = l - ?t \<and> 0 < u \<and>
      (\<forall>k. Suc i \<le> k \<and> k < j \<longrightarrow> bottomPx (cs ! k) - ?t \<le> ?m) \<and>
      (j < length cs \<longrightarrow> ?m < bottomPx (cs ! j) - ?t)"
    using innerLoop_mid[OF wf _ _ _ _ _ run] i hpos by simp
  have body: "pageBody cs g (ps, i) = Inr (mkSlice g ?t (bottomPx (cs ! (j - 1))), bottomPx (cs ! (j - 1)), j)"
    using first mid by (simp add: pageBody_def)
  have all: "\<forall>k. i \<le> k \<and> k < j \<longrightarrow> bottomPx (cs ! k) - ?t \<le> ?m"
  proof (intro allI impI)
    fix k assume k: "i \<le> k \<and> k < j"
    show "bottomPx (cs ! k) - ?t \<le> ?m"
    proof (cases "k = i")
      case True
      with fit show ?thesis by simp
    next
      case False
      with k mid show ?thesis by simp
    qed
  qed
  from mid body all show ?thesis by (intro exI[of _ j]) simp
qed

lemma outerLoop_pages:
  "wfRects cs \<Longrightarrow>
   \<exists>sl. outerLoop cs g (acc, ps, i) = Inr (acc @ sl) \<and> greedyPages cs (pageSliceHeightPx g) i sl"
proof (induction cs g "(acc, ps, i)" arbitrary: acc ps i rule: outerLoop.induct)
  case (1 cs g acc ps i)
  let ?m = "pageSliceHeightPx g"
  show ?case
  proof (cases "i < length cs")
    case False
    then show ?thesis by (auto intro: pagesEnd)
  next
    case True
    show ?thesis
    proof (cases "heightPx (cs ! i) \<le> ?m")
      case fit: True
      from pageBody_fit[OF "1.prems" True fit, of ps] obtain j where
        j: "i < j" "j \<le> length cs"
        and body: "pageBody cs g (ps, i) =
          Inr (mkSlice g (topPx (cs ! i)) (bottomPx (cs ! (j - 1))), bottomPx (cs ! (j - 1)), j)"
        and fits: "\<forall>k. i \<le> k \<and> k < j \<longrightarrow> bottomPx (cs ! k) - topPx (cs ! i) \<le> ?m"
        and maxi: "j < length cs \<longrightarrow> ?m < bottomPx (cs ! j) - topPx (cs ! i)"
        by blast
      let ?s = "mkSlice g (topPx (cs ! i)) (bottomPx (cs ! (j - 1)))"
      from "1.hyps"[OF True body refl refl "1.prems"] obtain sl where
        sl: "outerLoop cs g (acc @ [?s], bottomPx (cs ! (j - 1)), j) = Inr ((acc @ [?s]) @ sl)"
          "greedyPages cs ?m j sl"
        by blast
      have "outerLoop cs g (acc, ps, i) = Inr (acc @ ?s # sl)"
        using True body sl(1) by simp
      moreover have "greedyPages cs ?m i (?s # sl)"
        using j fits maxi sl(2) by (intro pagesFit[of i j]) (simp_all add: mkSlice_def)
      ultimately show ?thesis by blast
    next
      case clip: False
      then have big: "?m < heightPx (cs ! i)" by simp
      let ?s = "mkSlice g (topPx (cs ! i)) (topPx (cs ! i) + ?m)"
      note body = pageBody_clip[OF True big, of ps]
      from "1.hyps"[OF True body refl refl "1.prems"] obtain sl where
        sl: "outerLoop cs g (acc @ [?s], topPx (cs ! i) + ?m, Suc i) = Inr ((acc @ [?s]) @ sl)"
          "greedyPages cs ?m (Suc i) sl"
        by blast
      have "outerLoop cs g (acc, ps, i) = Inr (acc @ ?s # sl)"
        using True body sl(1) by simp
      moreover have "greedyPages cs ?m i (?s # sl)"
        using True big sl(2) by (intro pagesClip) (simp_all add: mkSlice_def)
      ultimately show ?thesis by blast
    qed
  qed
qed

lemma packSlices_pages:
  assumes "wfRects cs"
  shows "\<exists>sl. packSlices cs g = Inr sl \<and> greedyPages cs (pageSliceHeightPx g) 0 sl"
  using outerLoop_pages[OF assms, of g "[]" 0 0] by (simp add: packSlices_def)

lemma greedyPages_past_end:
  "greedyPages cs m i sl \<Longrightarrow> length cs \<le> i \<Longrightarrow> sl = []"
  by (induction rule: greedyPages.induct) auto

lemma greedyPages_length:
  "greedyPages cs m i sl \<Longrightarrow> length sl \<le> length cs - i"
  by (induction rule: greedyPages.induct) auto

lemma greedyPages_hd:
  "greedyPages cs m i sl \<Longrightarrow> i < length cs \<Longrightarrow> sl \<noteq> [] \<and> yStartPx (hd sl) = topPx (cs ! i)"
  by (induction rule: greedyPages.induct) auto

lemma greedyPages_shape:
  "greedyPages cs m i sl \<Longrightarrow> s \<in> set sl \<Longrightarrow>
     \<exists>k. i \<le> k \<and> k < length cs \<and> yStartPx s = topPx (cs ! k) \<and>
       ((\<exists>k'. k \<le> k' \<and> k' < length cs \<and> yEndPx s = bottomPx (cs ! k') \<and>
              bottomPx (cs ! k') - topPx (cs ! k) \<le> m)
        \<or> (m < heightPx (cs ! k) \<and> yEndPx s = topPx (cs ! k) + m))"
proof (induction rule: greedyPages.induct)
  case (pagesEnd i)
  then show ?case by simp
next
  case (pagesFit i j s' sl)
  show ?case
  proof (cases "s = s'")
    case True
    have jl: "i \<le> j - 1" "j - 1 < j" "j - 1 < length cs"
      using pagesFit.hyps(1,2) by auto
    then have b: "bottomPx (cs ! (j - 1)) - topPx (cs ! i) \<le> m"
      using pagesFit.hyps(5) by blast
    have e: "yEndPx s = bottomPx (cs ! (j - 1))" using True pagesFit.hyps(4) by simp
    have "\<exists>k'. i \<le> k' \<and> k' < length cs \<and> yEndPx s = bottomPx (cs ! k') \<and>
              bottomPx (cs ! k') - topPx (cs ! i) \<le> m"
      using jl(1,3) b e by blast
    moreover have "i < length cs" using pagesFit.hyps(1,2) by simp
    moreover have "yStartPx s = topPx (cs ! i)" using True pagesFit.hyps(3) by simp
    ultimately show ?thesis by blast
  next
    case False
    with pagesFit.prems have "s \<in> set sl" by simp
    from pagesFit.IH[OF this] pagesFit.hyps(1) show ?thesis
      by (meson le_trans less_imp_le_nat)
  qed
next
  case (pagesClip i s' sl)
  show ?case
  proof (cases "s = s'")
    case True
    with pagesClip.hyps show ?thesis by auto
  next
    case False
    with pagesClip.prems have "s \<in> set sl" by simp
    from pagesClip.IH[OF this] show ?thesis
      by (meson Suc_leD)
  qed
qed

lemma greedyPages_lower:
  assumes "greedyPages cs m i sl" and "wfRects cs" and "s \<in> set sl"
  shows "topPx (cs ! i) \<le> yStartPx s"
proof -
  from greedyPages_shape[OF assms(1,3)] obtain k where
    "i \<le> k" "k < length cs" "yStartPx s = topPx (cs ! k)" by blast
  with assms(2) show ?thesis by (simp add: wfRects_top_mono)
qed

lemma greedyPages_sorted:
  "greedyPages cs m i sl \<Longrightarrow> wfRects cs \<Longrightarrow>
     sorted_wrt (\<lambda>a b. yEndPx a \<le> yStartPx b) sl"
proof (induction rule: greedyPages.induct)
  case (pagesEnd i)
  then show ?case by simp
next
  case (pagesFit i j s sl)
  have "yEndPx s \<le> yStartPx t" if t: "t \<in> set sl" for t
  proof -
    have jn: "j < length cs"
      using greedyPages_past_end[OF pagesFit.hyps(7)] t by (cases "j < length cs") auto
    have "topPx (cs ! j) \<le> yStartPx t"
      using greedyPages_lower[OF pagesFit.hyps(7) pagesFit.prems t] .
    moreover have "bottomPx (cs ! (j - 1)) \<le> topPx (cs ! j)"
      using wfRects_before[OF pagesFit.prems, of "j - 1" j] jn pagesFit.hyps(1) by auto
    ultimately show ?thesis using pagesFit.hyps(4) by linarith
  qed
  with pagesFit.IH[OF pagesFit.prems] show ?case by simp
next
  case (pagesClip i s sl)
  have "yEndPx s \<le> yStartPx t" if t: "t \<in> set sl" for t
  proof -
    have jn: "Suc i < length cs"
      using greedyPages_past_end[OF pagesClip.hyps(5)] t by (cases "Suc i < length cs") auto
    have "topPx (cs ! Suc i) \<le> yStartPx t"
      using greedyPages_lower[OF pagesClip.hyps(5) pagesClip.prems t] .
    moreover have "bottomPx (cs ! i) \<le> topPx (cs ! Suc i)"
      using wfRects_next[OF pagesClip.prems jn] .
    ultimately show ?thesis using pagesClip.hyps(2,4) by linarith
  qed
  with pagesClip.IH[OF pagesClip.prems] show ?case by simp
qed

lemma greedyPages_sum:
  "greedyPages cs m i sl \<Longrightarrow> wfRects cs \<Longrightarrow> i < length cs \<Longrightarrow>
     sum_list (map sliceHeightPx sl) \<le> bottomPx (cs ! (length cs - 1)) - topPx (cs ! i)"
proof (induction rule: greedyPages.induct)
  case (pagesEnd i)
  then show ?case by simp
next
  case (pagesFit i j s sl)
  have h: "sliceHeightPx s = bottomPx (cs ! (j - 1)) - topPx (cs ! i)"
    using pagesFit.hyps by (simp add: sliceHeightPx_def)
  show ?case
  proof (cases "j < length cs")
    case True
    have "bottomPx (cs ! (j - 1)) \<le> topPx (cs ! j)"
      using wfRects_before[OF pagesFit.prems(1), of "j - 1" j] True pagesFit.hyps(1) by auto
    with pagesFit.IH[OF pagesFit.prems(1) True] h show ?thesis by simp
  next
    case False
    with pagesFit.hyps(2) have "j = length cs" by simp
    moreover from this greedyPages_past_end[OF pagesFit.hyps(7)] have "sl = []" by simp
    ultimately show ?thesis using h by simp
  qed
next
  case (pagesClip i s sl)
  have h: "sliceHeightPx s = m" using pagesClip.hyps by (simp add: sliceHeightPx_def)
  show ?case
  proof (cases "Suc i < length cs")
    case True
    have "bottomPx (cs ! i) \<le> topPx (cs ! Suc i)"
      using wfRects_next[OF pagesClip.prems(1) True] .
    with pagesClip.IH[OF pagesClip.prems(1) True] h pagesClip.hyps(2) show ?thesis by simp
  next
    case False
    with pagesClip.hyps(1) have e: "Suc i = length cs" by simp
    then have "sl = []" using greedyPages_past_end[OF pagesClip.hyps(5)] by simp
    moreover have "length cs - 1 = i" using e by simp
    ultimately show ?thesis using h pagesClip.hyps(2) by simp
  qed
qed

lemma greedyPages_cover:
  "greedyPages cs m i sl \<Longrightarrow> wfRects cs \<Longrightarrow> i \<le> k \<Longrightarrow> k < length cs \<Longrightarrow>
     (\<exists>s \<in> set sl. if heightPx (cs ! k) \<le> m
        then yStartPx s \<le> topPx (cs ! k) \<and> bottomPx (cs ! k) \<le> yEndPx s
        else yStartPx s = topPx (cs ! k) \<and> yEndPx s = topPx (cs ! k) + m)"
proof (induction rule: greedyPages.induct)
  case (pagesEnd i)
  then show ?case by simp
next
  case (pagesFit i j s sl)
  show ?case
  proof (cases "k < j")
    case True
    have t: "topPx (cs ! i) \<le> topPx (cs ! k)"
      using wfRects_top_mono[OF pagesFit.prems(1,2,3)] .
    have "bottomPx (cs ! k) - topPx (cs ! i) \<le> m"
      using pagesFit.hyps(5) pagesFit.prems(2) True by blast
    with t have fit: "heightPx (cs ! k) \<le> m" by linarith
    have "bottomPx (cs ! k) \<le> bottomPx (cs ! (j - 1))"
    proof (cases "k = j - 1")
      case False
      then have "k < j - 1" using True by simp
      from wfRects_before[OF pagesFit.prems(1) this] pagesFit.hyps(1,2)
      have "bottomPx (cs ! k) \<le> topPx (cs ! (j - 1))" by simp
      moreover have "0 < heightPx (cs ! (j - 1))"
        using wfRects_height[OF pagesFit.prems(1), of "j - 1"] pagesFit.hyps(1,2) by simp
      ultimately show ?thesis by linarith
    qed simp
    with t fit pagesFit.hyps(3,4) show ?thesis by auto
  next
    case False
    then have "j \<le> k" by simp
    from pagesFit.IH[OF pagesFit.prems(1) this pagesFit.prems(3)] show ?thesis by auto
  qed
next
  case (pagesClip i s sl)
  show ?case
  proof (cases "k = i")
    case True
    with pagesClip.hyps show ?thesis by auto
  next
    case False
    with pagesClip.prems(2) have "Suc i \<le> k" by simp
    from pagesClip.IH[OF pagesClip.prems(1) this pagesClip.prems(3)] show ?thesis by auto
  qed
qed

lemma greedyPages_maximal:
  "greedyPages cs m i sl \<Longrightarrow> wfRects cs \<Longrightarrow> Suc p < length sl \<Longrightarrow>
     \<exists>k < length cs. topPx (cs ! k) = yStartPx (sl ! Suc p) \<and>
        m < bottomPx (cs ! k) - yStartPx (sl ! p)"
proof (induction arbitrary: p rule: greedyPages.induct)
  case (pagesEnd i)
  then show ?case by simp
next
  case (pagesFit i j s sl)
  show ?case
  proof (cases p)
    case 0
    with pagesFit.prems have ne: "sl \<noteq> []" by auto
    then have jn: "j < length cs"
      using greedyPages_past_end[OF pagesFit.hyps(7)] by (cases "j < length cs") auto
    from greedyPages_hd[OF pagesFit.hyps(7) jn] have "yStartPx (sl ! 0) = topPx (cs ! j)"
      by (cases sl) auto
    with 0 jn pagesFit.hyps(3,6) show ?thesis by auto
  next
    case (Suc q)
    with pagesFit.prems have "Suc q < length sl" by simp
    from pagesFit.IH[OF pagesFit.prems(1) this] Suc show ?thesis by simp
  qed
next
  case (pagesClip i s sl)
  show ?case
  proof (cases p)
    case 0
    with pagesClip.prems have ne: "sl \<noteq> []" by auto
    then have jn: "Suc i < length cs"
      using greedyPages_past_end[OF pagesClip.hyps(5)] by (cases "Suc i < length cs") auto
    from greedyPages_hd[OF pagesClip.hyps(5) jn] have st: "yStartPx (sl ! 0) = topPx (cs ! Suc i)"
      by (cases sl) auto
    have "bottomPx (cs ! i) \<le> topPx (cs ! Suc i)" using wfRects_next[OF pagesClip.prems(1) jn] .
    moreover have "0 < heightPx (cs ! Suc i)" using wfRects_height[OF pagesClip.prems(1) jn] .
    ultimately have "m < bottomPx (cs ! Suc i) - topPx (cs ! i)"
      using pagesClip.hyps(2) by linarith
    with 0 jn st pagesClip.hyps(3) show ?thesis by auto
  next
    case (Suc q)
    with pagesClip.prems have "Suc q < length sl" by simp
    from pagesClip.IH[OF pagesClip.prems(1) this] Suc show ?thesis by simp
  qed
qed

lemma wfRects_bottom_mono:
  assumes "wfRects cs" and "i \<le> j" and "j < length cs"
  shows "bottomPx (cs ! i) \<le> bottomPx (cs ! j)"
proof (cases "i = j")
  case False
  with assms have "bottomPx (cs ! i) \<le> topPx (cs ! j)" by (simp add: wfRects_before)
  moreover have "0 < heightPx (cs ! j)" using assms by (simp add: wfRects_height)
  ultimately show ?thesis by linarith
qed simp

lemma pageBody_start:
  assumes "wfRects cs" and "i < length cs"
  shows "\<exists>s ps' j. pageBody cs g (ps, i) = Inr (s, ps', j) \<and> i < j \<and> j \<le> length cs \<and>
           yStartPx s = topPx (cs ! i)"
proof (cases "heightPx (cs ! i) \<le> pageSliceHeightPx g")
  case True
  from pageBody_fit[OF assms True, of ps] show ?thesis
    by (auto simp add: mkSlice_def)
next
  case False
  then have "pageSliceHeightPx g < heightPx (cs ! i)" by simp
  from pageBody_clip[OF assms(2) this, of ps] assms(2) show ?thesis
    by (simp add: mkSlice_def)
qed

lemma greedyPages_start_not_inside:
  assumes wf: "wfRects cs" and gp: "greedyPages cs m i sl" and s: "s \<in> set sl"
    and q: "q < length cs"
  shows "\<not> (topPx (cs ! q) < yStartPx s \<and> yStartPx s < bottomPx (cs ! q))"
proof -
  from greedyPages_shape[OF gp s] obtain k where k: "k < length cs"
    and st: "yStartPx s = topPx (cs ! k)" by blast
  show ?thesis
  proof (cases "q < k")
    case True
    from wfRects_before[OF wf True k] st show ?thesis by simp
  next
    case False
    then have "k \<le> q" by simp
    from wfRects_top_mono[OF wf this q] st show ?thesis by simp
  qed
qed

lemma greedyPages_end_inside:
  assumes wf: "wfRects cs" and cap: "0 < m" and gp: "greedyPages cs m i sl"
    and s: "s \<in> set sl" and q: "q < length cs"
    and inside: "topPx (cs ! q) < yEndPx s" "yEndPx s < bottomPx (cs ! q)"
  shows "m < heightPx (cs ! q) \<and> yStartPx s = topPx (cs ! q) \<and> yEndPx s = topPx (cs ! q) + m"
proof -
  from greedyPages_shape[OF gp s] obtain k where k: "k < length cs"
    and st: "yStartPx s = topPx (cs ! k)"
    and en: "(\<exists>k'. k \<le> k' \<and> k' < length cs \<and> yEndPx s = bottomPx (cs ! k') \<and>
                bottomPx (cs ! k') - topPx (cs ! k) \<le> m)
             \<or> (m < heightPx (cs ! k) \<and> yEndPx s = topPx (cs ! k) + m)"
    by blast
  from en show ?thesis
  proof
    assume "\<exists>k'. k \<le> k' \<and> k' < length cs \<and> yEndPx s = bottomPx (cs ! k') \<and>
                bottomPx (cs ! k') - topPx (cs ! k) \<le> m"
    then obtain k' where k': "k' < length cs" "yEndPx s = bottomPx (cs ! k')" by blast
    have False
    proof (cases "q \<le> k'")
      case True
      from wfRects_bottom_mono[OF wf True k'(1)] inside k' show False by simp
    next
      case False
      then have "k' < q" by simp
      from wfRects_before[OF wf this q] inside k' show False by simp
    qed
    then show ?thesis ..
  next
    assume clip: "m < heightPx (cs ! k) \<and> yEndPx s = topPx (cs ! k) + m"
    have "q = k"
    proof (rule ccontr)
      assume "q \<noteq> k"
      then consider "q < k" | "k < q" by linarith
      then show False
      proof cases
        case 1
        from wfRects_before[OF wf 1 k] inside clip cap show False by simp
      next
        case 2
        from wfRects_before[OF wf 2 q] inside clip show False by simp
      qed
    qed
    with clip st show ?thesis by simp
  qed
qed

lemma outerLoop_length:
  "outerLoop cs g (acc, ps, i) = Inr out \<Longrightarrow> length out \<le> length acc + (length cs - i)"
proof (induction cs g "(acc, ps, i)" arbitrary: acc ps i rule: outerLoop.induct)
  case (1 cs g acc ps i)
  show ?case
  proof (cases "i < length cs")
    case False
    with "1.prems" show ?thesis by simp
  next
    case True
    show ?thesis
    proof (cases "pageBody cs g (ps, i)")
      case (Inl e)
      with True "1.prems" show ?thesis by simp
    next
      case (Inr b)
      obtain s ps' j where b: "b = (s, ps', j)" by (cases b) auto
      with Inr have body: "pageBody cs g (ps, i) = Inr (s, ps', j)" by simp
      with True "1.prems" have "outerLoop cs g (acc @ [s], ps', j) = Inr out" by simp
      from "1.hyps"[OF True body refl refl this]
      have "length out \<le> length (acc @ [s]) + (length cs - j)" .
      then have "length out \<le> length acc + 1 + (length cs - j)" by simp
      moreover from pageBody_advance[OF body True] have "i < j \<and> j \<le> length cs" .
      ultimately show ?thesis by linarith
    qed
  qed
qed

lemma greedyPages_contains_card:
  assumes wf: "wfRects cs" and gp: "greedyPages cs m i sl" and s: "s \<in> set sl"
  shows "\<exists>c \<in> set cs. yStartPx s = topPx c \<and>
           (bottomPx c \<le> yEndPx s \<or> yEndPx s = topPx c + min (heightPx c) m)"
proof -
  from greedyPages_shape[OF gp s] obtain k where k: "k < length cs"
    and st: "yStartPx s = topPx (cs ! k)"
    and en: "(\<exists>k'. k \<le> k' \<and> k' < length cs \<and> yEndPx s = bottomPx (cs ! k') \<and>
                bottomPx (cs ! k') - topPx (cs ! k) \<le> m)
             \<or> (m < heightPx (cs ! k) \<and> yEndPx s = topPx (cs ! k) + m)"
    by blast
  from en have "bottomPx (cs ! k) \<le> yEndPx s \<or> yEndPx s = topPx (cs ! k) + min (heightPx (cs ! k)) m"
  proof
    assume "\<exists>k'. k \<le> k' \<and> k' < length cs \<and> yEndPx s = bottomPx (cs ! k') \<and>
                bottomPx (cs ! k') - topPx (cs ! k) \<le> m"
    then obtain k' where "k \<le> k'" "k' < length cs" "yEndPx s = bottomPx (cs ! k')" by blast
    with wfRects_bottom_mono[OF wf this(1,2)] show ?thesis by simp
  next
    assume "m < heightPx (cs ! k) \<and> yEndPx s = topPx (cs ! k) + m"
    then show ?thesis by simp
  qed
  with k st show ?thesis by (auto intro!: bexI[of _ "cs ! k"])
qed

lemma greedyPages_within_capacity:
  assumes "greedyPages cs m i sl" and "s \<in> set sl"
  shows "sliceHeightPx s \<le> m"
  using greedyPages_shape[OF assms] by (auto simp add: sliceHeightPx_def)

lemma wfRects_alone:
  assumes wf: "wfRects cs" and k: "k < length cs" and q: "q < length cs" and ne: "q \<noteq> k"
    and big: "m < heightPx (cs ! k)"
  shows "bottomPx (cs ! q) \<le> topPx (cs ! k) \<or> topPx (cs ! k) + m \<le> topPx (cs ! q)"
proof (cases "q < k")
  case True
  from wfRects_before[OF wf True k] show ?thesis by simp
next
  case False
  with ne have "k < q" by simp
  from wfRects_before[OF wf this q] big show ?thesis by simp
qed

lemma greedyPages_positive:
  assumes wf: "wfRects cs" and cap: "0 < m" and gp: "greedyPages cs m i sl" and s: "s \<in> set sl"
  shows "yStartPx s < yEndPx s"
proof -
  from greedyPages_shape[OF gp s] obtain k where k: "k < length cs"
    and st: "yStartPx s = topPx (cs ! k)"
    and en: "(\<exists>k'. k \<le> k' \<and> k' < length cs \<and> yEndPx s = bottomPx (cs ! k') \<and>
                bottomPx (cs ! k') - topPx (cs ! k) \<le> m)
             \<or> (m < heightPx (cs ! k) \<and> yEndPx s = topPx (cs ! k) + m)"
    by blast
  have hk: "0 < heightPx (cs ! k)" using wf k by (rule wfRects_height)
  from en show ?thesis
  proof
    assume "\<exists>k'. k \<le> k' \<and> k' < length cs \<and> yEndPx s = bottomPx (cs ! k') \<and>
                bottomPx (cs ! k') - topPx (cs ! k) \<le> m"
    then obtain k' where k': "k \<le> k'" "k' < length cs" "yEndPx s = bottomPx (cs ! k')" by blast
    from wfRects_bottom_mono[OF wf k'(1,2)] hk st k'(3) show ?thesis by simp
  next
    assume "m < heightPx (cs ! k) \<and> yEndPx s = topPx (cs ! k) + m"
    with cap st show ?thesis by simp
  qed
qed

lemma greedyPages_upper:
  assumes wf: "wfRects cs" and gp: "greedyPages cs m i sl" and s: "s \<in> set sl"
  shows "yEndPx s \<le> bottomPx (cs ! (length cs - 1))"
proof -
  from greedyPages_shape[OF gp s] obtain k where k: "k < length cs"
    and en: "(\<exists>k'. k \<le> k' \<and> k' < length cs \<and> yEndPx s = bottomPx (cs ! k') \<and>
                bottomPx (cs ! k') - topPx (cs ! k) \<le> m)
             \<or> (m < heightPx (cs ! k) \<and> yEndPx s = topPx (cs ! k) + m)"
    by blast
  have mono: "bottomPx (cs ! q) \<le> bottomPx (cs ! (length cs - 1))" if "q < length cs" for q
    using wfRects_bottom_mono[OF wf, of q "length cs - 1"] that by simp
  from en show ?thesis
  proof
    assume "\<exists>k'. k \<le> k' \<and> k' < length cs \<and> yEndPx s = bottomPx (cs ! k') \<and>
                bottomPx (cs ! k') - topPx (cs ! k) \<le> m"
    then obtain k' where "k' < length cs" "yEndPx s = bottomPx (cs ! k')" by blast
    with mono[of k'] show ?thesis by simp
  next
    assume "m < heightPx (cs ! k) \<and> yEndPx s = topPx (cs ! k) + m"
    with mono[OF k] show ?thesis by simp
  qed
qed

lemma greedyPages_top_in_unique_slice:
  assumes wf: "wfRects cs" and cap: "0 < m" and gp: "greedyPages cs m 0 sl"
    and k: "k < length cs"
  shows "\<exists>!p. p < length sl \<and> yStartPx (sl ! p) \<le> topPx (cs ! k) \<and> topPx (cs ! k) < yEndPx (sl ! p)"
proof -
  let ?t = "topPx (cs ! k)"
  have hk: "0 < heightPx (cs ! k)" using wf k by (rule wfRects_height)
  from greedyPages_cover[OF gp wf _ k] obtain s where s: "s \<in> set sl"
    and cov: "if heightPx (cs ! k) \<le> m
        then yStartPx s \<le> ?t \<and> bottomPx (cs ! k) \<le> yEndPx s
        else yStartPx s = ?t \<and> yEndPx s = ?t + m"
    by auto
  from cov hk cap have in_s: "yStartPx s \<le> ?t \<and> ?t < yEndPx s"
    by (auto split: if_splits)
  from s obtain p where p: "p < length sl" "sl ! p = s" by (auto simp add: in_set_conv_nth)
  have srt: "sorted_wrt (\<lambda>a b. yEndPx a \<le> yStartPx b) sl"
    using greedyPages_sorted[OF gp wf] .
  have uniq: "p' = p" if p': "p' < length sl" "yStartPx (sl ! p') \<le> ?t" "?t < yEndPx (sl ! p')" for p'
  proof (rule ccontr)
    assume "p' \<noteq> p"
    then consider "p' < p" | "p < p'" by linarith
    then show False
    proof cases
      case 1
      from sorted_wrt_nth_less[OF srt 1 p(1)] p(2) in_s p' show False by simp
    next
      case 2
      from sorted_wrt_nth_less[OF srt 2 p'(1)] p(2) in_s p' show False by simp
    qed
  qed
  show ?thesis
  proof (rule ex1I[of _ p])
    show "p < length sl \<and> yStartPx (sl ! p) \<le> ?t \<and> ?t < yEndPx (sl ! p)"
      using p in_s by simp
  next
    fix p' assume "p' < length sl \<and> yStartPx (sl ! p') \<le> ?t \<and> ?t < yEndPx (sl ! p')"
    then show "p' = p" using uniq by blast
  qed
qed

lemma outerLoop_all_clip:
  "(\<forall>k < length cs. pageSliceHeightPx g < heightPx (cs ! k)) \<Longrightarrow>
   outerLoop cs g (acc, ps, i) =
     Inr (acc @ map (\<lambda>c. mkSlice g (topPx c) (topPx c + pageSliceHeightPx g)) (drop i cs))"
proof (induction cs g "(acc, ps, i)" arbitrary: acc ps i rule: outerLoop.induct)
  case (1 cs g acc ps i)
  let ?f = "\<lambda>c. mkSlice g (topPx c) (topPx c + pageSliceHeightPx g)"
  show ?case
  proof (cases "i < length cs")
    case False
    then show ?thesis by simp
  next
    case True
    with "1.prems" have big: "pageSliceHeightPx g < heightPx (cs ! i)" by simp
    note body = pageBody_clip[OF True big, of ps]
    from "1.hyps"[OF True body refl refl "1.prems"]
    have "outerLoop cs g (acc @ [?f (cs ! i)], topPx (cs ! i) + pageSliceHeightPx g, Suc i) =
       Inr ((acc @ [?f (cs ! i)]) @ map ?f (drop (Suc i) cs))" .
    moreover have "drop i cs = cs ! i # drop (Suc i) cs"
      using True by (simp add: Cons_nth_drop_Suc)
    ultimately show ?thesis using True body by simp
  qed
qed






lemma greedyPages_next_start:
  "greedyPages cs m i sl \<Longrightarrow> wfRects cs \<Longrightarrow> 0 < m \<Longrightarrow> Suc p < length sl \<Longrightarrow>
     \<exists>k < length cs. yStartPx (sl ! Suc p) = topPx (cs ! k) \<and>
        yEndPx (sl ! p) \<le> topPx (cs ! k) \<and> (\<forall>q < k. topPx (cs ! q) < yEndPx (sl ! p))"
proof (induction arbitrary: p rule: greedyPages.induct)
  case (pagesEnd i)
  then show ?case by simp
next
  case (pagesFit i j s sl)
  note wf = pagesFit.prems(1)
  show ?case
  proof (cases p)
    case 0
    with pagesFit.prems have ne: "sl \<noteq> []" by auto
    then have jn: "j < length cs"
      using greedyPages_past_end[OF pagesFit.hyps(7)] by (cases "j < length cs") auto
    from greedyPages_hd[OF pagesFit.hyps(7) jn] have st: "yStartPx (sl ! 0) = topPx (cs ! j)"
      by (cases sl) auto
    have j1: "j - 1 < j" "j - 1 < length cs" using pagesFit.hyps(1) jn by auto
    have en: "yEndPx s \<le> topPx (cs ! j)"
      using wfRects_before[OF wf j1(1) jn] pagesFit.hyps(4) by simp
    have "topPx (cs ! q) < yEndPx s" if "q < j" for q
    proof -
      from that have "q \<le> j - 1" by simp
      from wfRects_top_mono[OF wf this j1(2)] wfRects_height[OF wf j1(2)] pagesFit.hyps(4)
      show ?thesis by simp
    qed
    with 0 jn st en show ?thesis by auto
  next
    case (Suc n)
    with pagesFit.prems have "Suc n < length sl" by simp
    from pagesFit.IH[OF wf pagesFit.prems(2) this] Suc show ?thesis by simp
  qed
next
  case (pagesClip i s sl)
  note wf = pagesClip.prems(1)
  show ?case
  proof (cases p)
    case 0
    with pagesClip.prems have ne: "sl \<noteq> []" by auto
    then have jn: "Suc i < length cs"
      using greedyPages_past_end[OF pagesClip.hyps(5)] by (cases "Suc i < length cs") auto
    from greedyPages_hd[OF pagesClip.hyps(5) jn] have st: "yStartPx (sl ! 0) = topPx (cs ! Suc i)"
      by (cases sl) auto
    have en: "yEndPx s \<le> topPx (cs ! Suc i)"
      using wfRects_next[OF wf jn] pagesClip.hyps(2,4) by simp
    have "topPx (cs ! q) < yEndPx s" if "q < Suc i" for q
    proof -
      from that have "q \<le> i" by simp
      from wfRects_top_mono[OF wf this pagesClip.hyps(1)] pagesClip.hyps(4) pagesClip.prems(2)
      show ?thesis by simp
    qed
    with 0 jn st en show ?thesis by auto
  next
    case (Suc n)
    with pagesClip.prems have "Suc n < length sl" by simp
    from pagesClip.IH[OF wf pagesClip.prems(2) this] Suc show ?thesis by simp
  qed
qed

section \<open>Rounding to a double: facts and values\<close>

lemma minSubnormal_pos: "0 < minSubnormal"
  by (simp add: minSubnormal_def)

lemma minSubnormal_le: "k \<le> 1074 \<Longrightarrow> minSubnormal \<le> 1 / 2 ^ k"
proof -
  assume "k \<le> 1074"
  then have "(2::real) ^ k \<le> 2 ^ 1074" by (intro power_increasing) simp_all
  then show ?thesis unfolding minSubnormal_def by (intro divide_left_mono) simp_all
qed

lemma normalize_up:
  "2 ^ 52 \<le> m * 2 ^ k \<Longrightarrow> m * 2 ^ k < 2 ^ 53 \<Longrightarrow> minSubnormal \<le> s / 2 ^ k \<Longrightarrow>
     normalize m s = (m * 2 ^ k, s / 2 ^ k)"
proof (induction k arbitrary: m s)
  case 0
  then show ?case by (subst normalize.simps) simp
next
  case (Suc k)
  have p: "(0::real) < 2 ^ k" and p1: "(1::real) \<le> 2 ^ k" by simp_all
  have "(0::real) < m * 2 ^ Suc k" using Suc.prems(1) by (rule less_le_trans[rotated]) simp
  then have mpos: "0 < m" by (simp add: zero_less_mult_iff)
  have "m * 2 * 1 \<le> m * 2 * 2 ^ k" using mpos p1 by (intro mult_left_mono) simp_all
  with Suc.prems(2) have "m * 2 < 2 ^ 53" by simp
  then have small: "m < 2 ^ 52" by simp
  have spos: "0 < s / 2 ^ Suc k" using Suc.prems(3) minSubnormal_pos by linarith
  then have s0: "0 < s" by (simp add: zero_less_divide_iff)
  have "s / 2 / 2 ^ k \<le> s / 2 / 1" using s0 p1 by (intro divide_left_mono) simp_all
  with Suc.prems(3) have "minSubnormal \<le> s / 2" by simp
  with s0 have sbig: "minSubnormal < s" by linarith
  have "normalize m s = normalize (m * 2) (s / 2)"
    using mpos small sbig by (subst normalize.simps) simp
  also have "\<dots> = (m * 2 * 2 ^ k, s / 2 / 2 ^ k)"
    using Suc.prems by (intro Suc.IH) (simp_all add: mult.assoc)
  finally show ?case by (simp add: mult.assoc)
qed

lemma normalize_down:
  "2 ^ 52 \<le> m / 2 ^ k \<Longrightarrow> m / 2 ^ k < 2 ^ 53 \<Longrightarrow>
     normalize m s = (m / 2 ^ k, s * 2 ^ k)"
proof (induction k arbitrary: m s)
  case 0
  then show ?case by (subst normalize.simps) simp
next
  case (Suc k)
  have p: "(0::real) < 2 ^ k" and p1: "(1::real) \<le> 2 ^ k" by simp_all
  have "(0::real) < m / 2 ^ Suc k" using Suc.prems(1) by (rule less_le_trans[rotated]) simp
  then have mpos: "0 < m" by (simp add: zero_less_divide_iff)
  have "m / 2 / 2 ^ k \<le> m / 2 / 1" using mpos p1 by (intro divide_left_mono) simp_all
  with Suc.prems(1) have "2 ^ 52 \<le> m / 2" by simp
  then have big: "2 ^ 53 \<le> m" by simp
  have "normalize m s = normalize (m / 2) (s * 2)"
    using mpos big by (subst normalize.simps) simp
  also have "\<dots> = (m / 2 / 2 ^ k, s * 2 * 2 ^ k)"
    using Suc.prems by (intro Suc.IH) simp_all
  finally show ?case by (simp add: mult.assoc)
qed



lemma dbl_zero: "dbl 0 = 0"
  by (simp add: dbl_def split: prod.split)


text \<open>
  Rules that evaluate \<open>dbl\<close> at a given number: \<open>normalize\<close> in one step, for the
  scalings that the sizes of pages and canvases need.
\<close>

lemmas normalize_at =
  normalize_up[where k = 41] normalize_up[where k = 42] normalize_up[where k = 43]
  normalize_up[where k = 44] normalize_up[where k = 45] normalize_up[where k = 46]
  normalize_up[where k = 47] normalize_up[where k = 48] normalize_up[where k = 49]
  normalize_up[where k = 50] normalize_up[where k = 51] normalize_up[where k = 52]
  normalize_up[where k = 53] normalize_up[where k = 54] normalize_up[where k = 55]

text \<open>The roundings that the instances below go through.\<close>

lemma dbl_values:
  "dbl (7441 / 25) = 2618069127129989 / 8796093022208"
  "dbl (2618069127129989 / 4398046511104) = 2618069127129989 / 4398046511104"
  "dbl (2169204500206715 / 8796093022208) = 2169204500206715 / 8796093022208"
  "dbl (433840900041343 / 2885118511284224) = 1354430126958339 / 9007199254740992"
  "dbl (15 / 79) = 1710227706596391 / 9007199254740992"
  "dbl (2371778522508165 / 10097914789494784) = 528898346482657 / 2251799813685248"
  "dbl (14 / 5) = 3152519739159347 / 1125899906842624"
  "dbl (141863388262170615 / 4503599627370496) = 8866461766385663 / 281474976710656"
  "dbl 56 = 56"
  "dbl 72 = 72"
  "dbl 200 = 200"
  "dbl (889078120437346417 / 2251799813685248) = 6945922815916769 / 17592186044416"
  "dbl (129580094888250965 / 281474976710656) = 8098755930515685 / 17592186044416"
  "dbl (2371778522508165 / 4398046511104) = 2371778522508165 / 4398046511104"
  "dbl 540 = 540"
  "dbl (14882 / 25) = 2618069127129989 / 4398046511104"
  "dbl 720 = 720"
  "dbl 724 = 724"
  "dbl (6912761545223045 / 8796093022208) = 6912761545223045 / 8796093022208"
  "dbl (84189 / 100) = 7405342754466693 / 8796093022208"
  "dbl (3786176206730375747 / 2251799813685248) = 7394875403770265 / 4398046511104"
  "dbl (551690954352885725 / 281474976710656) = 8620171161763839 / 4398046511104"
  "dbl (570606072787841807 / 281474976710656) = 2228929971827507 / 1099511627776"
  "dbl (1769666955577099520 / 528898346482657) = 1839454980231989 / 549755813888"
  "dbl (2161727821137838080 / 570075902198797) = 8338696185053183 / 2199023255552"
  by (simp_all add: dbl_def normalize_at roundEven_def Let_def minSubnormal_def)

text \<open>
  The product with the raster scale is rounded before \<open>Math.round\<close> sees it: a card
  11.25 px high at the raster scale 2.8 is 31 canvas pixels high, where the exact product
  31.5 would give 32.
\<close>

lemma cardRectsPxOf_rounds_product:
  "cardRectsPxOf defaultOptions wrapperAtOrigin [\<lparr> rectTop = 0, rectHeight = 11.25 \<rparr>] =
     [\<lparr> topPx = 0, heightPx = 31 \<rparr>]"
  by (simp add: cardRectsPxOf_def defaultOptions_def wrapperAtOrigin_def mathRound_def
      dbl_zero dbl_values)

text \<open>The default run, evaluated.\<close>

lemma defaultGeometry: "pageGeometry portraitA4 defaultOptions tallCanvas = Some defaultGeom"
  by (simp add: pageGeometry_def portraitA4_def defaultOptions_def tallCanvas_def defaultGeom_def
      dbl_values)

lemma twoCards_px:
  "cardRectsPxOf defaultOptions wrapperAtTen twoCards =
     [\<lparr>topPx = 0, heightPx = 1960\<rparr>, \<lparr>topPx = 2027, heightPx = 1681\<rparr>]"
  by (simp add: cardRectsPxOf_def defaultOptions_def wrapperAtTen_def twoCards_def mathRound_def
      dbl_zero dbl_values)

lemma defaultRun:
  "computePageSlices portraitA4 defaultOptions wrapperAtTen twoCards tallCanvas =
     Some (Inr [firstSlice, secondSlice])"
  by (simp add: computePageSlices_def defaultGeometry twoCards_px packSlices_def pageBody_def
      innerLoop.simps Let_def firstSlice_def secondSlice_def defaultGeom_def mkSlice_def)




section \<open>Properties\<close>

subsection \<open>Empty input\<close>

text \<open>
  C6. \<open>generatePDF\<close> on an empty item list rejects with the error
  \<open>Error("No items to export.")\<close> (the source's plain \<open>Error\<close> is what the
  specification calls \<open>EmptyInputError\<close>), and the world is unchanged: no wrapper has been
  created or appended to the render host.
\<close>

theorem generatePDF_empty_rejects:
  "generatePDF e opts [] w = Some (Inl (Error ''No items to export.''), w)"
  by (simp add: generatePDF_def)

subsection \<open>Slices break only between cards\<close>

text \<open>
  C1. For cards that satisfy the block invariant and a positive page capacity, no slice
  starts strictly inside a card, and a slice ends strictly inside a card only in the
  forced-slice fallback: that card is taller than the capacity, the slice starts at its
  top and ends exactly one capacity below. Every slice starts at the top of some card,
  and an iteration of the outer loop entered with \<open>currentIndex = i\<close> (card \<open>i\<close> is the
  first card not yet placed) pushes a slice that starts at the top of card \<open>i\<close>,
  whatever \<open>pageStartPx\<close> was carried over. On the slices of the run: they follow
  \<open>greedyPages\<close> from card 0; the first slice starts at the top of the first card; and
  each later slice starts at the top of the first card not on an earlier page, which is
  the card \<open>k\<close> such that every card before \<open>k\<close> begins above the end of the
  previous slice and card \<open>k\<close> does not.
\<close>

theorem slices_break_only_between_cards:
  assumes wf: "wfRects cs" and cap: "0 < pageSliceHeightPx g"
    and run: "packSlices cs g = Inr sl"
  shows "(\<forall>s \<in> set sl. \<forall>c \<in> set cs.
            \<not> (topPx c < yStartPx s \<and> yStartPx s < bottomPx c) \<and>
            (topPx c < yEndPx s \<and> yEndPx s < bottomPx c \<longrightarrow>
               pageSliceHeightPx g < heightPx c \<and> yStartPx s = topPx c \<and>
               yEndPx s = topPx c + pageSliceHeightPx g)) \<and>
         (\<forall>s \<in> set sl. \<exists>c \<in> set cs. yStartPx s = topPx c) \<and>
         (\<forall>ps i. i < length cs \<longrightarrow>
            (\<exists>s ps' j. pageBody cs g (ps, i) = Inr (s, ps', j) \<and> yStartPx s = topPx (cs ! i))) \<and>
         greedyPages cs (pageSliceHeightPx g) 0 sl \<and>
         (cs \<noteq> [] \<longrightarrow> sl \<noteq> [] \<and> yStartPx (hd sl) = topPx (hd cs)) \<and>
         (\<forall>p. Suc p < length sl \<longrightarrow>
            (\<exists>k < length cs. yStartPx (sl ! Suc p) = topPx (cs ! k) \<and>
               yEndPx (sl ! p) \<le> topPx (cs ! k) \<and>
               (\<forall>q < k. topPx (cs ! q) < yEndPx (sl ! p))))"
proof -
  let ?m = "pageSliceHeightPx g"
  from packSlices_pages[OF wf, of g] run have gp: "greedyPages cs ?m 0 sl" by simp
  have p4: "sl \<noteq> [] \<and> yStartPx (hd sl) = topPx (hd cs)" if "cs \<noteq> []"
  proof -
    from that have "0 < length cs" and "hd cs = cs ! 0" by (simp_all add: hd_conv_nth)
    with greedyPages_hd[OF gp] show ?thesis by simp
  qed
  have p5: "\<exists>k < length cs. yStartPx (sl ! Suc p) = topPx (cs ! k) \<and>
               yEndPx (sl ! p) \<le> topPx (cs ! k) \<and>
               (\<forall>q < k. topPx (cs ! q) < yEndPx (sl ! p))"
    if "Suc p < length sl" for p
    using greedyPages_next_start[OF gp wf cap that] .
  have p1: "\<not> (topPx c < yStartPx s \<and> yStartPx s < bottomPx c) \<and>
            (topPx c < yEndPx s \<and> yEndPx s < bottomPx c \<longrightarrow>
               ?m < heightPx c \<and> yStartPx s = topPx c \<and> yEndPx s = topPx c + ?m)"
    if s: "s \<in> set sl" and c: "c \<in> set cs" for s c
  proof -
    from c obtain q where q: "q < length cs" "c = cs ! q" by (auto simp add: in_set_conv_nth)
    from greedyPages_start_not_inside[OF wf gp s q(1)]
      greedyPages_end_inside[OF wf cap gp s q(1)] q(2)
    show ?thesis by blast
  qed
  have p2: "\<exists>c \<in> set cs. yStartPx s = topPx c" if s: "s \<in> set sl" for s
  proof -
    from greedyPages_shape[OF gp s] obtain k where "k < length cs" "yStartPx s = topPx (cs ! k)"
      by blast
    then show ?thesis by (auto intro: bexI[of _ "cs ! k"])
  qed
  have p3: "\<exists>s ps' j. pageBody cs g (ps, i) = Inr (s, ps', j) \<and> yStartPx s = topPx (cs ! i)"
    if "i < length cs" for ps i
    using pageBody_start[OF wf that, of g ps] by blast
  from p1 p2 p3 gp p4 p5 show ?thesis by blast
qed

text \<open>
  An instance with an oversized second card (2000 px against a capacity of 1100 px).
\<close>

theorem slices_break_only_between_cards_witness:
  "wfRects mixedCards \<and> 0 < pageSliceHeightPx (exampleGeom 1100) \<and>
   packSlices mixedCards (exampleGeom 1100) =
     Inr [mkSlice (exampleGeom 1100) 0 500, mkSlice (exampleGeom 1100) 524 1624,
          mkSlice (exampleGeom 1100) 2548 2648] \<and>
   \<not> (topPx (mixedCards ! 1) < yStartPx (mkSlice (exampleGeom 1100) 524 1624) \<and>
      yStartPx (mkSlice (exampleGeom 1100) 524 1624) < bottomPx (mixedCards ! 1)) \<and>
   heightPx (mixedCards ! 1) > pageSliceHeightPx (exampleGeom 1100) \<and>
   (\<exists>s ps' j. pageBody mixedCards (exampleGeom 1100) (500, 1) = Inr (s, ps', j) \<and>
      yStartPx s = topPx (mixedCards ! 1)) \<and>
   greedyPages mixedCards (pageSliceHeightPx (exampleGeom 1100)) 0
     [mkSlice (exampleGeom 1100) 0 500, mkSlice (exampleGeom 1100) 524 1624,
      mkSlice (exampleGeom 1100) 2548 2648]"
proof -
  have wf: "wfRects mixedCards" by (simp add: mixedCards_def)
  have cap: "0 < pageSliceHeightPx (exampleGeom 1100)" by (simp add: exampleGeom_def)
  have run: "packSlices mixedCards (exampleGeom 1100) =
     Inr [mkSlice (exampleGeom 1100) 0 500, mkSlice (exampleGeom 1100) 524 1624,
          mkSlice (exampleGeom 1100) 2548 2648]"
    by (simp add: packSlices_def pageBody_def innerLoop.simps Let_def mkSlice_def
        exampleGeom_def mixedCards_def)
  have s: "mkSlice (exampleGeom 1100) 524 1624 \<in>
     set [mkSlice (exampleGeom 1100) 0 500, mkSlice (exampleGeom 1100) 524 1624,
          mkSlice (exampleGeom 1100) 2548 2648]" by simp
  have c: "mixedCards ! 1 \<in> set mixedCards" by (simp add: mixedCards_def)
  have inside: "topPx (mixedCards ! 1) < yEndPx (mkSlice (exampleGeom 1100) 524 1624) \<and>
     yEndPx (mkSlice (exampleGeom 1100) 524 1624) < bottomPx (mixedCards ! 1)"
    by (simp add: mixedCards_def mkSlice_def)
  have i: "1 < length mixedCards" by (simp add: mixedCards_def)
  note inst = slices_break_only_between_cards[OF wf cap run]
  from inst s c inside have "\<not> (topPx (mixedCards ! 1) < yStartPx (mkSlice (exampleGeom 1100) 524 1624) \<and>
      yStartPx (mkSlice (exampleGeom 1100) 524 1624) < bottomPx (mixedCards ! 1)) \<and>
      heightPx (mixedCards ! 1) > pageSliceHeightPx (exampleGeom 1100)"
    by blast
  moreover from inst i have "\<exists>s ps' j. pageBody mixedCards (exampleGeom 1100) (500, 1) = Inr (s, ps', j) \<and>
      yStartPx s = topPx (mixedCards ! 1)" by blast
  moreover from inst have "greedyPages mixedCards (pageSliceHeightPx (exampleGeom 1100)) 0
     [mkSlice (exampleGeom 1100) 0 500, mkSlice (exampleGeom 1100) 524 1624,
      mkSlice (exampleGeom 1100) 2548 2648]" by blast
  ultimately show ?thesis using wf cap run by blast
qed

subsection \<open>Progress and the number of pages\<close>

text \<open>
  C10. Every iteration of the outer loop that pushes a slice moves \<open>currentIndex\<close>
  forward by at least one card and never past the end; hence the loops terminate (both
  are total functions here) and a run that returns gives at most as many slices as there
  are cards. For a non-empty card list that satisfies the block invariant the run does
  return, with at least one slice, and every slice starts at the top of a card and
  holds that card whole or holds it clipped to the page capacity.
\<close>

theorem slicer_progress_and_page_count:
  "(\<forall>ps i s ps' j. i < length cs \<and> pageBody cs g (ps, i) = Inr (s, ps', j) \<longrightarrow>
       i < j \<and> j \<le> length cs) \<and>
   (\<forall>sl. packSlices cs g = Inr sl \<longrightarrow> length sl \<le> length cs) \<and>
   (wfRects cs \<and> cs \<noteq> [] \<longrightarrow>
      (\<exists>sl. packSlices cs g = Inr sl \<and> sl \<noteq> [] \<and> length sl \<le> length cs \<and>
         (\<forall>s \<in> set sl. \<exists>c \<in> set cs. yStartPx s = topPx c \<and>
            (bottomPx c \<le> yEndPx s \<or>
             yEndPx s = topPx c + min (heightPx c) (pageSliceHeightPx g)))))"
proof (intro conjI allI impI)
  fix ps i s ps' j
  assume "i < length cs \<and> pageBody cs g (ps, i) = Inr (s, ps', j)"
  then show "i < j" and "j \<le> length cs"
    using pageBody_advance[of cs g ps i s ps' j] by simp_all
next
  fix sl assume "packSlices cs g = Inr sl"
  then show "length sl \<le> length cs"
    using outerLoop_length[of cs g "[]" 0 0 sl] by (simp add: packSlices_def)
next
  assume a: "wfRects cs \<and> cs \<noteq> []"
  then have wf: "wfRects cs" and ne: "0 < length cs" by simp_all
  from packSlices_pages[OF wf, of g] obtain sl where
    run: "packSlices cs g = Inr sl" and gp: "greedyPages cs (pageSliceHeightPx g) 0 sl"
    by blast
  have "sl \<noteq> []" using greedyPages_hd[OF gp ne] by simp
  moreover have "length sl \<le> length cs" using greedyPages_length[OF gp] by simp
  moreover have "\<forall>s \<in> set sl. \<exists>c \<in> set cs. yStartPx s = topPx c \<and>
            (bottomPx c \<le> yEndPx s \<or>
             yEndPx s = topPx c + min (heightPx c) (pageSliceHeightPx g))"
    using greedyPages_contains_card[OF wf gp] by blast
  ultimately show "\<exists>sl. packSlices cs g = Inr sl \<and> sl \<noteq> [] \<and> length sl \<le> length cs \<and>
         (\<forall>s \<in> set sl. \<exists>c \<in> set cs. yStartPx s = topPx c \<and>
            (bottomPx c \<le> yEndPx s \<or>
             yEndPx s = topPx c + min (heightPx c) (pageSliceHeightPx g)))"
    using run by blast
qed

text \<open>The first iteration on three cards, and the whole run.\<close>

theorem slicer_progress_and_page_count_witness:
  "pageBody mixedCards (exampleGeom 1100) (0, 0) =
     Inr (mkSlice (exampleGeom 1100) 0 500, 500, 1) \<and> (0::nat) < 1 \<and> 1 \<le> length mixedCards \<and>
   wfRects mixedCards \<and> mixedCards \<noteq> [] \<and>
   (\<exists>sl. packSlices mixedCards (exampleGeom 1100) = Inr sl \<and> sl \<noteq> [] \<and>
      length sl \<le> length mixedCards)"
proof -
  have body: "pageBody mixedCards (exampleGeom 1100) (0, 0) =
     Inr (mkSlice (exampleGeom 1100) 0 500, 500, 1)"
    by (simp add: pageBody_def innerLoop.simps Let_def mkSlice_def exampleGeom_def mixedCards_def)
  have wf: "wfRects mixedCards \<and> mixedCards \<noteq> []" by (simp add: mixedCards_def)
  have i: "0 < length mixedCards" by (simp add: mixedCards_def)
  note inst = slicer_progress_and_page_count[of mixedCards "exampleGeom 1100"]
  from inst body i have "(0::nat) < 1 \<and> 1 \<le> length mixedCards" by blast
  moreover from inst wf have "\<exists>sl. packSlices mixedCards (exampleGeom 1100) = Inr sl \<and> sl \<noteq> [] \<and>
      length sl \<le> length mixedCards" by blast
  ultimately show ?thesis using body wf by blast
qed

subsection \<open>Greedy packing\<close>

text \<open>
  C3. For cards that satisfy the block invariant the run returns slices that follow the
  greedy policy \<open>greedyPages\<close> from card 0: no slice is higher than the page capacity,
  and for every page but the last the card at whose top the next page starts would have
  ended beyond the capacity, measured from the start of the page. In the loop itself: an
  iteration entered at a card \<open>i\<close> that fits takes the cards \<open>i, \<dots>, j - 1\<close>, each of
  which ends within the capacity measured from the top of card \<open>i\<close>, and stops at the
  first card \<open>j\<close> that does not (or at the end of the list).
\<close>

theorem greedy_packing_is_maximal:
  assumes wf: "wfRects cs"
  shows "(\<exists>sl. packSlices cs g = Inr sl \<and> greedyPages cs (pageSliceHeightPx g) 0 sl \<and>
            (\<forall>s \<in> set sl. sliceHeightPx s \<le> pageSliceHeightPx g) \<and>
            (\<forall>p. Suc p < length sl \<longrightarrow>
               (\<exists>c \<in> set cs. topPx c = yStartPx (sl ! Suc p) \<and>
                  pageSliceHeightPx g < bottomPx c - yStartPx (sl ! p)))) \<and>
         (\<forall>ps i. i < length cs \<and> heightPx (cs ! i) \<le> pageSliceHeightPx g \<longrightarrow>
            (\<exists>j. i < j \<and> j \<le> length cs \<and>
               pageBody cs g (ps, i) =
                 Inr (mkSlice g (topPx (cs ! i)) (bottomPx (cs ! (j - 1))),
                      bottomPx (cs ! (j - 1)), j) \<and>
               (\<forall>k. i \<le> k \<and> k < j \<longrightarrow>
                  bottomPx (cs ! k) - topPx (cs ! i) \<le> pageSliceHeightPx g) \<and>
               (j < length cs \<longrightarrow>
                  pageSliceHeightPx g < bottomPx (cs ! j) - topPx (cs ! i))))"
proof -
  let ?m = "pageSliceHeightPx g"
  from packSlices_pages[OF wf, of g] obtain sl where
    run: "packSlices cs g = Inr sl" and gp: "greedyPages cs ?m 0 sl" by blast
  have within: "\<forall>s \<in> set sl. sliceHeightPx s \<le> ?m"
    using greedyPages_within_capacity[OF gp] by blast
  have maxi: "\<exists>c \<in> set cs. topPx c = yStartPx (sl ! Suc p) \<and> ?m < bottomPx c - yStartPx (sl ! p)"
    if "Suc p < length sl" for p
  proof -
    from greedyPages_maximal[OF gp wf that] obtain k where
      "k < length cs" "topPx (cs ! k) = yStartPx (sl ! Suc p)"
      "?m < bottomPx (cs ! k) - yStartPx (sl ! p)" by blast
    then show ?thesis by (auto intro!: bexI[of _ "cs ! k"])
  qed
  have out: "\<exists>sl. packSlices cs g = Inr sl \<and> greedyPages cs ?m 0 sl \<and>
            (\<forall>s \<in> set sl. sliceHeightPx s \<le> ?m) \<and>
            (\<forall>p. Suc p < length sl \<longrightarrow>
               (\<exists>c \<in> set cs. topPx c = yStartPx (sl ! Suc p) \<and>
                  ?m < bottomPx c - yStartPx (sl ! p)))"
    using run gp within maxi by blast
  have step: "\<exists>j. i < j \<and> j \<le> length cs \<and>
               pageBody cs g (ps, i) =
                 Inr (mkSlice g (topPx (cs ! i)) (bottomPx (cs ! (j - 1))),
                      bottomPx (cs ! (j - 1)), j) \<and>
               (\<forall>k. i \<le> k \<and> k < j \<longrightarrow> bottomPx (cs ! k) - topPx (cs ! i) \<le> ?m) \<and>
               (j < length cs \<longrightarrow> ?m < bottomPx (cs ! j) - topPx (cs ! i))"
    if "i < length cs \<and> heightPx (cs ! i) \<le> ?m" for ps i
    using pageBody_fit[OF wf, of i g ps] that by blast
  from out step show ?thesis by blast
qed

text \<open>
  Three cards of 500 px with gaps of 24 px and a capacity of 1100 px: the first page
  holds cards 1 and 2 (1024 px), the second page holds card 3.
\<close>

theorem greedy_packing_is_maximal_witness:
  "wfRects scenarioA \<and>
   packSlices scenarioA (exampleGeom 1100) =
     Inr [mkSlice (exampleGeom 1100) 0 1024, mkSlice (exampleGeom 1100) 1048 1548] \<and>
   pageBody scenarioA (exampleGeom 1100) (0, 0) = Inr (mkSlice (exampleGeom 1100) 0 1024, 1024, 2) \<and>
   pageBody scenarioA (exampleGeom 1100) (1024, 2) =
     Inr (mkSlice (exampleGeom 1100) 1048 1548, 1548, 3) \<and>
   (\<exists>c \<in> set scenarioA. topPx c = 1048 \<and> 1100 < bottomPx c - 0)"
proof -
  let ?g = "exampleGeom 1100"
  have wf: "wfRects scenarioA" by (simp add: scenarioA_def)
  have run: "packSlices scenarioA ?g = Inr [mkSlice ?g 0 1024, mkSlice ?g 1048 1548]"
    by (simp add: packSlices_def pageBody_def innerLoop.simps Let_def mkSlice_def
        exampleGeom_def scenarioA_def)
  have b0: "pageBody scenarioA ?g (0, 0) = Inr (mkSlice ?g 0 1024, 1024, 2)"
    by (simp add: pageBody_def innerLoop.simps Let_def mkSlice_def exampleGeom_def scenarioA_def)
  have b2: "pageBody scenarioA ?g (1024, 2) = Inr (mkSlice ?g 1048 1548, 1548, 3)"
    by (simp add: pageBody_def innerLoop.simps Let_def mkSlice_def exampleGeom_def scenarioA_def)
  from greedy_packing_is_maximal[OF wf, of ?g] run
  have "\<forall>p. Suc p < length [mkSlice ?g 0 1024, mkSlice ?g 1048 1548] \<longrightarrow>
          (\<exists>c \<in> set scenarioA.
             topPx c = yStartPx ([mkSlice ?g 0 1024, mkSlice ?g 1048 1548] ! Suc p) \<and>
             pageSliceHeightPx ?g < bottomPx c - yStartPx ([mkSlice ?g 0 1024, mkSlice ?g 1048 1548] ! p))"
    by auto
  then have "\<exists>c \<in> set scenarioA.
             topPx c = yStartPx ([mkSlice ?g 0 1024, mkSlice ?g 1048 1548] ! Suc 0) \<and>
             pageSliceHeightPx ?g < bottomPx c - yStartPx ([mkSlice ?g 0 1024, mkSlice ?g 1048 1548] ! 0)"
    by (rule allE[of _ 0]) simp
  then have "\<exists>c \<in> set scenarioA. topPx c = 1048 \<and> 1100 < bottomPx c - 0"
    by (simp add: mkSlice_def exampleGeom_def)
  with wf run b0 b2 show ?thesis by blast
qed

subsection \<open>The oversized card\<close>

text \<open>
  C5. A card that is taller than the page capacity gets a page of its own: the iteration
  entered at that card pushes the slice from the card's top to one capacity below it and
  moves on by exactly one card; the slice is in the result of the run, and no other
  card's rectangle reaches into it.
\<close>

theorem oversized_card_is_clipped_alone:
  assumes wf: "wfRects cs" and k: "k < length cs"
    and big: "pageSliceHeightPx g < heightPx (cs ! k)"
  shows "pageBody cs g (ps, k) =
           Inr (mkSlice g (topPx (cs ! k)) (topPx (cs ! k) + pageSliceHeightPx g),
                topPx (cs ! k) + pageSliceHeightPx g, Suc k) \<and>
         (\<exists>sl. packSlices cs g = Inr sl \<and>
            (\<exists>s \<in> set sl. yStartPx s = topPx (cs ! k) \<and>
               yEndPx s = topPx (cs ! k) + pageSliceHeightPx g \<and>
               (\<forall>q < length cs. q \<noteq> k \<longrightarrow>
                  bottomPx (cs ! q) \<le> yStartPx s \<or> yEndPx s \<le> topPx (cs ! q))))"
proof -
  let ?m = "pageSliceHeightPx g"
  from packSlices_pages[OF wf, of g] obtain sl where
    run: "packSlices cs g = Inr sl" and gp: "greedyPages cs ?m 0 sl" by blast
  from greedyPages_cover[OF gp wf _ k] big obtain s where
    s: "s \<in> set sl" "yStartPx s = topPx (cs ! k)" "yEndPx s = topPx (cs ! k) + ?m"
    by auto
  have "\<forall>q < length cs. q \<noteq> k \<longrightarrow> bottomPx (cs ! q) \<le> yStartPx s \<or> yEndPx s \<le> topPx (cs ! q)"
    using wfRects_alone[OF wf k _ _ big] s(2,3) by simp
  with run s have "\<exists>sl. packSlices cs g = Inr sl \<and>
            (\<exists>s \<in> set sl. yStartPx s = topPx (cs ! k) \<and>
               yEndPx s = topPx (cs ! k) + ?m \<and>
               (\<forall>q < length cs. q \<noteq> k \<longrightarrow>
                  bottomPx (cs ! q) \<le> yStartPx s \<or> yEndPx s \<le> topPx (cs ! q)))"
    by blast
  with pageBody_clip[OF k big, of ps] show ?thesis by simp
qed

text \<open>A single card of 2000 px and a capacity of 1200 px: one slice of 1200 px.\<close>

theorem oversized_card_is_clipped_alone_witness:
  "wfRects scenarioB \<and> 0 < length scenarioB \<and>
   pageSliceHeightPx (exampleGeom 1200) < heightPx (scenarioB ! 0) \<and>
   pageBody scenarioB (exampleGeom 1200) (0, 0) = Inr (mkSlice (exampleGeom 1200) 0 1200, 1200, 1) \<and>
   packSlices scenarioB (exampleGeom 1200) = Inr [mkSlice (exampleGeom 1200) 0 1200] \<and>
   sliceHeightPx (mkSlice (exampleGeom 1200) 0 1200) = 1200"
proof -
  let ?g = "exampleGeom 1200"
  have wf: "wfRects scenarioB" by (simp add: scenarioB_def)
  have k: "0 < length scenarioB" by (simp add: scenarioB_def)
  have big: "pageSliceHeightPx ?g < heightPx (scenarioB ! 0)"
    by (simp add: scenarioB_def exampleGeom_def)
  have run: "packSlices scenarioB ?g = Inr [mkSlice ?g 0 1200]"
    by (simp add: packSlices_def pageBody_def innerLoop.simps Let_def mkSlice_def
        exampleGeom_def scenarioB_def)
  have h: "sliceHeightPx (mkSlice ?g 0 1200) = 1200"
    by (simp add: sliceHeightPx_def mkSlice_def)
  from oversized_card_is_clipped_alone[OF wf k big, of 0]
  have "pageBody scenarioB ?g (0, 0) = Inr (mkSlice ?g 0 1200, 1200, 1)"
    by (simp add: scenarioB_def exampleGeom_def)
  with wf k big run h show ?thesis by blast
qed

subsection \<open>Slices and the surface\<close>

text \<open>
  C2, as amended. For a non-empty card list that satisfies the block invariant, lies within
  the surface \<open>[0, H]\<close>, and a positive capacity: the top edge of every card lies in
  exactly one slice; a card that is not taller than the capacity lies whole within a
  slice; the slices come in increasing order and do not overlap; every slice is a
  non-empty range within \<open>[0, H]\<close>; and the heights of the slices sum to at most \<open>H\<close>.
  The slices need not be contiguous: a page starts at the top of its first card, so the
  gap between two cards at a page break, and the part of an oversized card below its
  clipped slice, belong to no slice.
\<close>

theorem slices_cover_cards_in_order:
  assumes wf: "wfRects cs" and ne: "cs \<noteq> []" and cap: "0 < pageSliceHeightPx g"
    and top0: "0 \<le> topPx (hd cs)" and bot: "bottomPx (last cs) \<le> H"
    and run: "packSlices cs g = Inr sl"
  shows "(\<forall>c \<in> set cs. \<exists>!p. p < length sl \<and> yStartPx (sl ! p) \<le> topPx c \<and>
                                topPx c < yEndPx (sl ! p)) \<and>
         (\<forall>c \<in> set cs. heightPx c \<le> pageSliceHeightPx g \<longrightarrow>
            (\<exists>s \<in> set sl. yStartPx s \<le> topPx c \<and> bottomPx c \<le> yEndPx s)) \<and>
         sorted_wrt (\<lambda>a b. yEndPx a \<le> yStartPx b) sl \<and>
         (\<forall>s \<in> set sl. 0 \<le> yStartPx s \<and> yStartPx s < yEndPx s \<and> yEndPx s \<le> H) \<and>
         sum_list (map sliceHeightPx sl) \<le> H"
proof -
  let ?m = "pageSliceHeightPx g"
  from packSlices_pages[OF wf, of g] run have gp: "greedyPages cs ?m 0 sl" by simp
  have n: "0 < length cs" using ne by simp
  have hd0: "hd cs = cs ! 0" using ne by (simp add: hd_conv_nth)
  have lastn: "last cs = cs ! (length cs - 1)" using ne by (simp add: last_conv_nth)
  have p1: "\<exists>!p. p < length sl \<and> yStartPx (sl ! p) \<le> topPx c \<and> topPx c < yEndPx (sl ! p)"
    if "c \<in> set cs" for c
  proof -
    from that obtain k where "k < length cs" "c = cs ! k" by (auto simp add: in_set_conv_nth)
    with greedyPages_top_in_unique_slice[OF wf cap gp, of k] show ?thesis by simp
  qed
  have p2: "\<exists>s \<in> set sl. yStartPx s \<le> topPx c \<and> bottomPx c \<le> yEndPx s"
    if "c \<in> set cs" and "heightPx c \<le> ?m" for c
  proof -
    from that obtain k where k: "k < length cs" "c = cs ! k" by (auto simp add: in_set_conv_nth)
    from greedyPages_cover[OF gp wf _ k(1)] k(2) that(2) show ?thesis by auto
  qed
  have p3: "sorted_wrt (\<lambda>a b. yEndPx a \<le> yStartPx b) sl"
    using greedyPages_sorted[OF gp wf] .
  have p4: "0 \<le> yStartPx s \<and> yStartPx s < yEndPx s \<and> yEndPx s \<le> H" if "s \<in> set sl" for s
    using greedyPages_lower[OF gp wf that] greedyPages_positive[OF wf cap gp that]
      greedyPages_upper[OF wf gp that] top0 bot hd0 lastn by simp
  have p5: "sum_list (map sliceHeightPx sl) \<le> H"
    using greedyPages_sum[OF gp wf n] top0 bot hd0 lastn by simp
  from p1 p2 p3 p4 p5 show ?thesis by blast
qed

text \<open>The three cards of 500 px on a surface of 1548 px.\<close>

theorem slices_cover_cards_in_order_witness:
  "wfRects scenarioA \<and> scenarioA \<noteq> [] \<and> 0 < pageSliceHeightPx (exampleGeom 1100) \<and>
   0 \<le> topPx (hd scenarioA) \<and> bottomPx (last scenarioA) \<le> 1548 \<and>
   packSlices scenarioA (exampleGeom 1100) =
     Inr [mkSlice (exampleGeom 1100) 0 1024, mkSlice (exampleGeom 1100) 1048 1548] \<and>
   sorted_wrt (\<lambda>a b. yEndPx a \<le> yStartPx b)
     [mkSlice (exampleGeom 1100) 0 1024, mkSlice (exampleGeom 1100) 1048 1548] \<and>
   sum_list (map sliceHeightPx
     [mkSlice (exampleGeom 1100) 0 1024, mkSlice (exampleGeom 1100) 1048 1548]) \<le> 1548"
proof -
  let ?g = "exampleGeom 1100"
  have wf: "wfRects scenarioA" and ne: "scenarioA \<noteq> []" by (simp_all add: scenarioA_def)
  have cap: "0 < pageSliceHeightPx ?g" by (simp add: exampleGeom_def)
  have top0: "0 \<le> topPx (hd scenarioA)" and bot: "bottomPx (last scenarioA) \<le> 1548"
    by (simp_all add: scenarioA_def)
  have run: "packSlices scenarioA ?g = Inr [mkSlice ?g 0 1024, mkSlice ?g 1048 1548]"
    by (simp add: packSlices_def pageBody_def innerLoop.simps Let_def mkSlice_def
        exampleGeom_def scenarioA_def)
  from slices_cover_cards_in_order[OF wf ne cap top0 bot run]
  have "sorted_wrt (\<lambda>a b. yEndPx a \<le> yStartPx b) [mkSlice ?g 0 1024, mkSlice ?g 1048 1548] \<and>
    sum_list (map sliceHeightPx [mkSlice ?g 0 1024, mkSlice ?g 1048 1548]) \<le> 1548"
    by blast
  with wf ne cap top0 bot run show ?thesis by blast
qed

text \<open>
  The claim as stated fails on the same three cards: the surface is \<open>[0, 1548]\<close>, the
  slices are \<open>[0, 1024]\<close> and \<open>[1048, 1548]\<close>, their heights sum to 1524, and the 24
  pixels between the second and the third card are in neither slice.
\<close>

theorem slices_partition_surface_counterexample:
  "packSlices scenarioA (exampleGeom 1100) =
     Inr [mkSlice (exampleGeom 1100) 0 1024, mkSlice (exampleGeom 1100) 1048 1548] \<and>
   sum_list (map sliceHeightPx
     [mkSlice (exampleGeom 1100) 0 1024, mkSlice (exampleGeom 1100) 1048 1548]) = 1524 \<and>
   topPx (hd scenarioA) = 0 \<and> bottomPx (last scenarioA) = 1548 \<and>
   sum_list (map sliceHeightPx
     [mkSlice (exampleGeom 1100) 0 1024, mkSlice (exampleGeom 1100) 1048 1548]) \<noteq>
     bottomPx (last scenarioA) - topPx (hd scenarioA) \<and>
   yEndPx (mkSlice (exampleGeom 1100) 0 1024) < yStartPx (mkSlice (exampleGeom 1100) 1048 1548)"
  by (simp add: packSlices_def pageBody_def innerLoop.simps Let_def mkSlice_def
      exampleGeom_def scenarioA_def sliceHeightPx_def)

subsection \<open>A page capacity of zero or less\<close>

text \<open>
  C4, as amended. When the computed page capacity \<open>pageSliceHeightPx\<close> is zero or
  negative, \<open>_computePageSlices\<close> raises no error (the source has no check of the
  capacity): for cards of positive height it returns one forced slice per card, from the
  card's top to \<open>top + pageSliceHeightPx\<close>, an empty or inverted range.
\<close>

theorem nonpositive_capacity_forces_one_slice_per_card:
  assumes geom: "pageGeometry lib opts cv = Some g"
    and cap: "pageSliceHeightPx g \<le> 0"
    and pos: "\<forall>c \<in> set (cardRectsPxOf opts w cards). 0 < heightPx c"
  shows "computePageSlices lib opts w cards cv =
     Some (Inr (map (\<lambda>c. mkSlice g (topPx c) (topPx c + pageSliceHeightPx g))
                  (cardRectsPxOf opts w cards)))"
proof -
  let ?cs = "cardRectsPxOf opts w cards"
  have "\<forall>k < length ?cs. pageSliceHeightPx g < heightPx (?cs ! k)"
  proof (intro allI impI)
    fix k assume "k < length ?cs"
    then have "?cs ! k \<in> set ?cs" by simp
    with pos have "0 < heightPx (?cs ! k)" by blast
    with cap show "pageSliceHeightPx g < heightPx (?cs ! k)" by simp
  qed
  from outerLoop_all_clip[OF this, of "[]" 0 0]
  have "packSlices ?cs g = Inr (map (\<lambda>c. mkSlice g (topPx c) (topPx c + pageSliceHeightPx g)) ?cs)"
    by (simp add: packSlices_def)
  with geom show ?thesis by (simp add: computePageSlices_def)
qed

text \<open>
  An A4 page in landscape, 841.89 by 595.28 pt, with a margin of 297.64 pt: twice the
  margin is the height of the page, so the usable height is 0 pt and so is the capacity.
  The usable width is about 246.61 pt, and the margin is the double next to 297.64.
\<close>

theorem nonpositive_capacity_forces_one_slice_per_card_witness:
  "pageGeometry landscapeA4 fullMarginOptions smallCanvas =
     Some \<lparr> geomUsableWidthPt = 2169204500206715 / 8796093022208, geomUsableHeightPt = 0,
            geomPxToPt = 1354430126958339 / 9007199254740992,
            geomMargin = 2618069127129989 / 8796093022208, pageSliceHeightPx = 0 \<rparr> \<and>
   cardRectsPxOf fullMarginOptions wrapperAtOrigin oneCard = [\<lparr> topPx = 0, heightPx = 200 \<rparr>] \<and>
   computePageSlices landscapeA4 fullMarginOptions wrapperAtOrigin oneCard smallCanvas =
     Some (Inr [\<lparr> yStartPx = 0, yEndPx = 0, usableWidthPt = 2169204500206715 / 8796093022208,
                  pxToPt = 1354430126958339 / 9007199254740992,
                  margin = 2618069127129989 / 8796093022208, usableHeightPt = 0 \<rparr>])"
proof -
  let ?g = "\<lparr> geomUsableWidthPt = 2169204500206715 / 8796093022208, geomUsableHeightPt = 0,
            geomPxToPt = 1354430126958339 / 9007199254740992,
            geomMargin = 2618069127129989 / 8796093022208, pageSliceHeightPx = 0 \<rparr>"
  have geom: "pageGeometry landscapeA4 fullMarginOptions smallCanvas = Some ?g"
    by (simp add: pageGeometry_def landscapeA4_def fullMarginOptions_def smallCanvas_def Let_def
        dbl_values dbl_zero)
  have cap: "pageSliceHeightPx ?g \<le> 0" by simp
  have cs: "cardRectsPxOf fullMarginOptions wrapperAtOrigin oneCard = [\<lparr> topPx = 0, heightPx = 200 \<rparr>]"
    by (simp add: cardRectsPxOf_def fullMarginOptions_def wrapperAtOrigin_def oneCard_def
        mathRound_def Let_def dbl_values dbl_zero)
  have pos: "\<forall>c \<in> set (cardRectsPxOf fullMarginOptions wrapperAtOrigin oneCard). 0 < heightPx c"
    by (simp add: cs)
  from nonpositive_capacity_forces_one_slice_per_card[OF geom cap pos]
  have "computePageSlices landscapeA4 fullMarginOptions wrapperAtOrigin oneCard smallCanvas =
     Some (Inr [\<lparr> yStartPx = 0, yEndPx = 0, usableWidthPt = 2169204500206715 / 8796093022208,
                  pxToPt = 1354430126958339 / 9007199254740992,
                  margin = 2618069127129989 / 8796093022208, usableHeightPt = 0 \<rparr>])"
    by (simp add: cs mkSlice_def)
  with geom cs show ?thesis by blast
qed

text \<open>
  The claim as stated fails there: the capacity computes to 0 and the run returns a
  slice list, not an error.
\<close>

theorem zero_capacity_raises_no_error_counterexample:
  "map_option pageSliceHeightPx (pageGeometry landscapeA4 fullMarginOptions smallCanvas) = Some 0 \<and>
   computePageSlices landscapeA4 fullMarginOptions wrapperAtOrigin oneCard smallCanvas =
     Some (Inr [\<lparr> yStartPx = 0, yEndPx = 0, usableWidthPt = 2169204500206715 / 8796093022208,
                  pxToPt = 1354430126958339 / 9007199254740992,
                  margin = 2618069127129989 / 8796093022208, usableHeightPt = 0 \<rparr>])"
  by (simp add: computePageSlices_def pageGeometry_def landscapeA4_def fullMarginOptions_def
      wrapperAtOrigin_def oneCard_def smallCanvas_def cardRectsPxOf_def mathRound_def Let_def
      packSlices_def pageBody_def innerLoop.simps mkSlice_def dbl_values dbl_zero)

subsection \<open>Determinism\<close>

text \<open>
  C7. Two runs of \<open>_computePageSlices\<close> on the same measured card rectangles and
  wrapper return the same result (the same slices, or the same error) whenever they
  agree on the page size that jsPDF reports, on the margin, on the raster scale and on
  the width of the canvas. Nothing else enters: not the other options (file name,
  colours, layout width, spacing) and not the height of the canvas.
\<close>

theorem slicing_is_deterministic:
  assumes "libA (pdfUnit optsA) (pdfFormat optsA) (pdfOrientation optsA) =
           libB (pdfUnit optsB) (pdfFormat optsB) (pdfOrientation optsB)"
    and "pageMarginPt optsA = pageMarginPt optsB"
    and "rasterScale optsA = rasterScale optsB"
    and "canvasWidth cvA = canvasWidth cvB"
  shows "computePageSlices libA optsA w cards cvA = computePageSlices libB optsB w cards cvB"
proof -
  have geom: "pageGeometry libA optsA cvA = pageGeometry libB optsB cvB"
    unfolding pageGeometry_def assms(1) assms(2) assms(4) by (rule refl)
  have rects: "cardRectsPxOf optsA w cards = cardRectsPxOf optsB w cards"
    unfolding cardRectsPxOf_def assms(3) by (rule refl)
  show ?thesis
    unfolding computePageSlices_def geom rects by (rule refl)
qed

text \<open>
  Two runs with different file names, colours, spacing and canvas heights, on the default
  page geometry.
\<close>

theorem slicing_is_deterministic_witness:
  "defaultOptions \<noteq> otherOptions \<and> tallCanvas \<noteq> tallerCanvas \<and>
   computePageSlices portraitA4 defaultOptions wrapperAtTen twoCards tallCanvas =
   computePageSlices portraitA4 otherOptions wrapperAtTen twoCards tallerCanvas \<and>
   computePageSlices portraitA4 defaultOptions wrapperAtTen twoCards tallCanvas =
     Some (Inr [firstSlice, secondSlice])"
proof -
  have d: "defaultOptions \<noteq> otherOptions" "tallCanvas \<noteq> tallerCanvas"
    by (simp_all add: defaultOptions_def otherOptions_def tallCanvas_def tallerCanvas_def)
  have size: "portraitA4 (pdfUnit defaultOptions) (pdfFormat defaultOptions) (pdfOrientation defaultOptions) =
      portraitA4 (pdfUnit otherOptions) (pdfFormat otherOptions) (pdfOrientation otherOptions)"
    by (simp add: portraitA4_def)
  have m: "pageMarginPt defaultOptions = pageMarginPt otherOptions"
    and r: "rasterScale defaultOptions = rasterScale otherOptions"
    by (simp_all add: defaultOptions_def otherOptions_def)
  have c: "canvasWidth tallCanvas = canvasWidth tallerCanvas"
    by (simp add: tallCanvas_def tallerCanvas_def)
  from slicing_is_deterministic[where libA = portraitA4 and libB = portraitA4
      and optsA = defaultOptions and optsB = otherOptions
      and cvA = tallCanvas and cvB = tallerCanvas and w = wrapperAtTen and cards = twoCards,
      OF size m r c] d defaultRun
  show ?thesis by blast
qed

subsection \<open>One scale for slicing and placement\<close>




subsection \<open>The wrapper on the render host\<close>

text \<open>
  C9, as amended. \<open>generatePDF\<close> on a non-empty item list appends a fresh wrapper to the
  render host and removes it in one place only, after \<open>_computePageSlices\<close> has
  returned. So the render host is as before exactly when the run resolves, that is when
  typesetting, the capture and the slicing have all succeeded; when one of them fails the
  promise rejects and the wrapper is still attached.
\<close>

theorem wrapper_released_exactly_on_success:
  assumes ne: "items \<noteq> []" and fresh: "nextNode w \<notin> set (renderHost w)"
    and run: "generatePDF e opts items w = Some (r, w')"
  shows "renderHost w' = (if r = Inr () then renderHost w else renderHost w @ [nextNode w]) \<and>
         (r = Inr () \<longleftrightarrow>
            typesetResult e = None \<and>
            (\<exists>bigCanvas slices. captureResult e = Inr bigCanvas \<and>
               computePageSlices (pdfLib e) opts (layoutWrapper e items)
                 (map (layoutCard e items) [0..<length items]) bigCanvas = Some (Inr slices)))"
proof -
  let ?w1 = "w\<lparr> renderHost := renderHost w @ [nextNode w], nextNode := Suc (nextNode w) \<rparr>"
  have rem: "remove1 (nextNode w) (renderHost w @ [nextNode w]) = renderHost w"
    using fresh by (simp add: remove1_append)
  show ?thesis
  proof (cases "typesetResult e")
    case (Some err)
    with ne run show ?thesis
      by (auto simp add: generatePDF_def buildContinuousDocument_def Let_def)
  next
    case None
    show ?thesis
    proof (cases "captureResult e")
      case (Inl err)
      with None ne run show ?thesis
        by (auto simp add: generatePDF_def buildContinuousDocument_def Let_def)
    next
      case (Inr cv)
      show ?thesis
      proof (cases "computePageSlices (pdfLib e) opts (layoutWrapper e items)
                 (map (layoutCard e items) [0..<length items]) cv")
        case None2: None
        with None Inr ne run show ?thesis
          by (simp add: generatePDF_def buildContinuousDocument_def Let_def)
      next
        case (Some res)
        show ?thesis
        proof (cases res)
          case (Inl err)
          with Some None Inr ne run show ?thesis
            by (auto simp add: generatePDF_def buildContinuousDocument_def Let_def)
        next
          case Inr2: (Inr sl)
          with Some None Inr ne run rem show ?thesis
            by (auto simp add: generatePDF_def buildContinuousDocument_def Let_def removeChild_def)
        qed
      qed
    qed
  qed
qed

text \<open>A run that resolves: one item, one page, the wrapper removed.\<close>

theorem wrapper_released_exactly_on_success_witness:
  "oneItem \<noteq> [] \<and> nextNode emptyWorld \<notin> set (renderHost emptyWorld) \<and>
   generatePDF goodEnv defaultOptions oneItem emptyWorld = Some (Inr (), savedWorld) \<and>
   renderHost savedWorld = renderHost emptyWorld \<and>
   typesetResult goodEnv = None"
proof -
  have ne: "oneItem \<noteq> []" by (simp add: oneItem_def)
  have fresh: "nextNode emptyWorld \<notin> set (renderHost emptyWorld)" by (simp add: emptyWorld_def)
  have run: "generatePDF goodEnv defaultOptions oneItem emptyWorld = Some (Inr (), savedWorld)"
    by (simp add: generatePDF_def buildContinuousDocument_def removeChild_def goodEnv_def
      oneItem_def emptyWorld_def savedWorld_def stackedLayout_def fixedWrapper_def
      computePageSlices_def pageGeometry_def portraitA4_def defaultOptions_def
      wrapperAtTen_def tallCanvas_def cardRectsPxOf_def mathRound_def Let_def
      packSlices_def pageBody_def innerLoop.simps mkSlice_def
      buildPdfFromSlices_def addImage_def dbl_values dbl_zero)
  from wrapper_released_exactly_on_success[OF ne fresh run]
  have "renderHost savedWorld = renderHost emptyWorld \<and> typesetResult goodEnv = None"
    by simp
  with ne fresh run show ?thesis by blast
qed

text \<open>
  The claim as stated fails when MathJax or html2canvas rejects: the wrapper, node 0,
  stays on the render host, which was empty before the run.
\<close>

theorem wrapper_leaks_on_failure_counterexample:
  "generatePDF typesetFailsEnv defaultOptions oneItem emptyWorld =
     Some (Inl (Rejected ''typeset''), \<lparr> renderHost = [0], nextNode = 1, saved = [] \<rparr>) \<and>
   generatePDF captureFailsEnv defaultOptions oneItem emptyWorld =
     Some (Inl (Rejected ''html2canvas''), \<lparr> renderHost = [0], nextNode = 1, saved = [] \<rparr>) \<and>
   renderHost emptyWorld = []"
  by (simp add: generatePDF_def buildContinuousDocument_def typesetFailsEnv_def
      captureFailsEnv_def oneItem_def emptyWorld_def Let_def)

end
